theory Spec2Isabelle
  imports Complex_Main "HOL-Library.Multiset"
begin

section \<open>Data model of \<open>deeplearning/data_augmentation.py\<close>\<close>

text \<open>
  The module is a flat set of numpy transforms on a two-dimensional array \<open>X\<close> of shape
  \<open>(M, N)\<close>. Array entries are modelled as real numbers (numpy's float64 rounding is not
  modelled). Every value the module draws from numpy's global random generator is an
  explicit argument of the model: the standard normal variates behind
  \<open>np.random.normal\<close>, the unit-interval variates behind \<open>np.random.uniform\<close>, and the
  integers \<open>np.random.randint\<close> and \<open>np.random.permutation\<close> returned.
\<close>

text \<open>
  The module defines no exception of its own; what it raises are Python's built-in
  exceptions, raised by the interpreter or by numpy. \<open>NotFinite\<close> is not an exception: it
  marks the places where float64 division by zero fills the result with \<open>inf\<close> or \<open>nan\<close>
  (numpy only warns there), values that real arithmetic has no counterpart for.
\<close>

datatype py_error = ValueError | IndexError | NameError | ZeroDivisionError | NotFinite

record 'a ndarray =
  shape0 :: nat
  shape1 :: nat
  rows :: "'a list list"

definition wf_array :: "'a ndarray \<Rightarrow> bool" where
  "wf_array X = (length (rows X) = shape0 X \<and> list_all (\<lambda>r. length r = shape1 X) (rows X))"

definition mk_array :: "nat \<Rightarrow> nat \<Rightarrow> (nat \<Rightarrow> nat \<Rightarrow> 'a) \<Rightarrow> 'a ndarray" where
  "mk_array m n f = \<lparr>shape0 = m, shape1 = n, rows = map (\<lambda>i. map (f i) [0..<n]) [0..<m]\<rparr>"

text \<open>\<open>np.zeros(shape)\<close> and \<open>np.ones(shape)\<close>.\<close>

definition np_zeros :: "nat \<Rightarrow> nat \<Rightarrow> 'a::zero ndarray" where
  "np_zeros m n = mk_array m n (\<lambda>i j. 0)"

definition np_ones :: "nat \<Rightarrow> nat \<Rightarrow> real ndarray" where
  "np_ones m n = mk_array m n (\<lambda>i j. 1)"

text \<open>
  Elementwise binary operators (\<open>X + noise\<close>, \<open>X * noise\<close>) with numpy's broadcasting of
  two-dimensional operands: two extents are compatible when they are equal or one of
  them is 1, and an operand of extent 1 is repeated along that axis.
\<close>

definition bdim :: "nat \<Rightarrow> nat \<Rightarrow> nat option" where
  "bdim a b = (if a = b then Some a else if a = 1 then Some b else if b = 1 then Some a else None)"

definition at2 :: "real ndarray \<Rightarrow> nat \<Rightarrow> nat \<Rightarrow> real" where
  "at2 A i j = rows A ! (if shape0 A = 1 then 0 else i) ! (if shape1 A = 1 then 0 else j)"

definition broadcast2 ::
  "(real \<Rightarrow> real \<Rightarrow> real) \<Rightarrow> real ndarray \<Rightarrow> real ndarray \<Rightarrow> py_error + real ndarray" where
  "broadcast2 f A B =
     (case bdim (shape0 A) (shape0 B) of
        None \<Rightarrow> Inl ValueError
      | Some m \<Rightarrow>
          (case bdim (shape1 A) (shape1 B) of
             None \<Rightarrow> Inl ValueError
           | Some n \<Rightarrow> Inr (mk_array m n (\<lambda>i j. f (at2 A i j) (at2 B i j)))))"

text \<open>
  \<open>np.matmul(A, B)\<close> on two-dimensional operands: the inner extents must agree
  (\<open>ValueError\<close> otherwise).
\<close>

definition np_matmul :: "real ndarray \<Rightarrow> real ndarray \<Rightarrow> py_error + real ndarray" where
  "np_matmul A B =
     (if shape1 A \<noteq> shape0 B then Inl ValueError
      else Inr (mk_array (shape0 A) (shape1 B)
                 (\<lambda>i j. sum_list (map (\<lambda>l. rows A ! i ! l * rows B ! l ! j) [0..<shape1 A]))))"

text \<open>
  Column read \<open>A[:, c]\<close> and column store \<open>A[:, c] = v\<close>. A column index past the last
  column raises \<open>IndexError\<close>; a stored vector must have one entry per row, or a single
  entry that numpy repeats (\<open>ValueError\<close> otherwise).
\<close>

definition column :: "'a ndarray \<Rightarrow> nat \<Rightarrow> py_error + 'a list" where
  "column A c = (if c < shape1 A then Inr (map (\<lambda>r. r ! c) (rows A)) else Inl IndexError)"

definition set_column :: "'a ndarray \<Rightarrow> nat \<Rightarrow> 'a list \<Rightarrow> py_error + 'a ndarray" where
  "set_column A c v =
     (if shape1 A \<le> c then Inl IndexError
      else if length v = shape0 A
        then Inr (A\<lparr>rows := map (\<lambda>(r, x). r[c := x]) (zip (rows A) v)\<rparr>)
      else if length v = 1
        then Inr (A\<lparr>rows := map (\<lambda>r. r[c := hd v]) (rows A)\<rparr>)
      else Inl ValueError)"

text \<open>
  \<open>np.random.normal(loc, scale, size=(m, n))\<close>: numpy computes \<open>loc + scale * z\<close> from a
  standard normal variate \<open>z\<close> per entry and raises \<open>ValueError\<close> for a negative scale
  or a negative extent.
\<close>

definition random_normal ::
  "real \<Rightarrow> real \<Rightarrow> int \<Rightarrow> nat \<Rightarrow> (nat \<Rightarrow> nat \<Rightarrow> real) \<Rightarrow> py_error + real ndarray" where
  "random_normal loc scale m n z =
     (if scale < 0 \<or> m < 0 then Inl ValueError
      else Inr (mk_array (nat m) n (\<lambda>i j. loc + scale * z i j)))"

text \<open>
  \<open>np.random.randint(low, high, size)\<close>, \<open>high\<close> exclusive. \<open>d\<close> holds the integers the
  generator returned, each of which numpy takes from \<open>[low, high)\<close> (the predicate
  \<open>in_range\<close>). A negative size and an empty range raise \<open>ValueError\<close>; current numpy
  returns the empty array for size 0 before it looks at the range. The bounds are
  mathematical integers here: numpy also raises \<open>ValueError\<close> for a bound outside the
  64-bit integers, which no window length and segment length of an array in memory
  reach.
\<close>

definition randint :: "int \<Rightarrow> int \<Rightarrow> int \<Rightarrow> (nat \<Rightarrow> int) \<Rightarrow> py_error + int list" where
  "randint low high sz d =
     (if sz < 0 then Inl ValueError
      else if sz = 0 then Inr []
      else if high \<le> low then Inl ValueError
      else Inr (map d [0..<nat sz]))"

definition in_range :: "int \<Rightarrow> int \<Rightarrow> int \<Rightarrow> (nat \<Rightarrow> int) \<Rightarrow> bool" where
  "in_range low high sz d = list_all (\<lambda>v. low \<le> v \<and> v < high) (map d [0..<nat sz])"

text \<open>
  \<open>np.interp(x, xp, fp)\<close>, one-dimensional linear interpolation with the boundary values
  \<open>fp[0]\<close> and \<open>fp[-1]\<close> outside the sample points. For each \<open>x\<close> numpy looks up the index
  \<open>j\<close> with \<open>xp[j] \<le> x < xp[j+1]\<close>; \<open>interp_index\<close> is its linear scan
  \<^verbatim>\<open>for (i = 1; i < len && key >= arr[i]; ++i); return i - 1;\<close>
  (the binary search numpy uses on longer arrays finds the same index when \<open>xp\<close> is
  sorted). The value is \<open>fp[j]\<close> at the last sample point and where \<open>xp[j] == x\<close>, and
  \<open>slope * (x - xp[j]) + fp[j]\<close> otherwise.
\<close>

definition interp_index :: "real \<Rightarrow> real list \<Rightarrow> nat" where
  "interp_index key arr = length (takeWhile (\<lambda>a. a \<le> key) (tl arr))"

definition interp1 :: "real list \<Rightarrow> real list \<Rightarrow> real \<Rightarrow> real" where
  "interp1 xp fp x =
     (if last xp < x then last fp
      else if x < hd xp then hd fp
      else let j = interp_index x xp in
        if j = length xp - 1 then fp ! j
        else if xp ! j = x then fp ! j
        else (fp ! Suc j - fp ! j) / (xp ! Suc j - xp ! j) * (x - xp ! j) + fp ! j)"

definition np_interp :: "real list \<Rightarrow> real list \<Rightarrow> real list \<Rightarrow> py_error + real list" where
  "np_interp x xp fp =
     (if xp = [] \<or> length fp \<noteq> length xp then Inl ValueError
      else Inr (map (interp1 xp fp) x))"

text \<open>\<open>np.arange(m)\<close> as reals, the abscissae every transform interpolates onto.\<close>

definition x_range :: "nat \<Rightarrow> real list" where
  "x_range m = map real [0..<m]"

subsection \<open>Jitter\<close>

definition jitter :: "real ndarray \<Rightarrow> real \<Rightarrow> (nat \<Rightarrow> nat \<Rightarrow> real) \<Rightarrow> py_error + real ndarray" where
  "jitter X sigma z =
     (case random_normal 0 sigma (int (shape0 X)) (shape1 X) z of
        Inl e \<Rightarrow> Inl e
      | Inr noise \<Rightarrow> broadcast2 (+) X noise)"

subsection \<open>Scaling\<close>

definition scaling :: "real ndarray \<Rightarrow> real \<Rightarrow> (nat \<Rightarrow> nat \<Rightarrow> real) \<Rightarrow> py_error + real ndarray" where
  "scaling X sigma z =
     (case random_normal 1 sigma 1 (shape1 X) z of
        Inl e \<Rightarrow> Inl e
      | Inr sc_factor \<Rightarrow>
          (case np_matmul (np_ones (shape0 X) 1) sc_factor of
             Inl e \<Rightarrow> Inl e
           | Inr noise \<Rightarrow> broadcast2 (*) X noise))"

subsection \<open>Random curves and magnitude warping\<close>

text \<open>
  \<open>np.arange(0, stop, step)\<close> with a float step holds \<open>ceil(stop / step)\<close> entries
  \<open>i * step\<close>; a zero step raises.
\<close>

definition arange_step :: "nat \<Rightarrow> real \<Rightarrow> py_error + real list" where
  "arange_step stop step =
     (if step = 0 then Inl ZeroDivisionError
      else Inr (map (\<lambda>i. real i * step) [0..<nat \<lceil>real stop / step\<rceil>]))"

text \<open>
  \<open>scipy.interpolate.CubicSpline(x, y)\<close> is not part of the repository. The model takes
  the fitted interpolant as the parameter \<open>fit\<close> and writes out the input checks of the
  constructor: at least two control points, as many ordinates as abscissae, abscissae
  strictly increasing (\<open>ValueError\<close> otherwise). What the properties below use of a
  spline is that it passes through its control points (\<open>interpolating\<close>).
\<close>

type_synonym spline_fit = "real list \<Rightarrow> real list \<Rightarrow> real \<Rightarrow> real"

definition CubicSpline :: "spline_fit \<Rightarrow> real list \<Rightarrow> real list \<Rightarrow> py_error + (real \<Rightarrow> real)" where
  "CubicSpline fit x y =
     (if length x < 2 \<or> length y \<noteq> length x \<or> \<not> sorted_wrt (<) x then Inl ValueError
      else Inr (fit x y))"

definition interpolating :: "spline_fit \<Rightarrow> bool" where
  "interpolating fit =
     (\<forall>x y i. length y = length x \<and> sorted_wrt (<) x \<and> i < length x \<longrightarrow> fit x y (x ! i) = y ! i)"

text \<open>\<open>CubicSpline(xx[:,c], yy[:,c])\<close>: both column reads come first.\<close>

definition spline_channel ::
  "spline_fit \<Rightarrow> real ndarray \<Rightarrow> real ndarray \<Rightarrow> nat \<Rightarrow> py_error + (real \<Rightarrow> real)" where
  "spline_channel fit xx yy c =
     (case column xx c of
        Inl e \<Rightarrow> Inl e
      | Inr x \<Rightarrow> (case column yy c of Inl e \<Rightarrow> Inl e | Inr y \<Rightarrow> CubicSpline fit x y))"

text \<open>
  \<open>generate_random_curves(X, sigma, knot)\<close>. \<open>xx\<close> repeats the knot abscissae
  \<open>np.arange(0, M, (M-1)/(knot+1))\<close> in each of the \<open>N\<close> columns; \<open>yy\<close> holds the
  \<open>knot+2\<close> normal ordinates per column; channels 0, 1 and 2 are fitted in this order
  and evaluated on \<open>np.arange(M)\<close>. The result has three columns whatever \<open>N\<close> is.
\<close>

definition generate_random_curves ::
  "spline_fit \<Rightarrow> real ndarray \<Rightarrow> real \<Rightarrow> int \<Rightarrow> (nat \<Rightarrow> nat \<Rightarrow> real) \<Rightarrow> py_error + real ndarray" where
  "generate_random_curves fit X sigma knot z =
     (if knot + 1 = 0 then Inl ZeroDivisionError
      else
        (case arange_step (shape0 X) ((real (shape0 X) - 1) / real_of_int (knot + 1)) of
           Inl e \<Rightarrow> Inl e
         | Inr knots \<Rightarrow>
             (let xx = mk_array (length knots) (shape1 X) (\<lambda>i j. knots ! i) in
              case random_normal 1 sigma (knot + 2) (shape1 X) z of
                Inl e \<Rightarrow> Inl e
              | Inr yy \<Rightarrow>
                  (case spline_channel fit xx yy 0 of
                     Inl e \<Rightarrow> Inl e
                   | Inr cs_x \<Rightarrow>
                       (case spline_channel fit xx yy 1 of
                          Inl e \<Rightarrow> Inl e
                        | Inr cs_y \<Rightarrow>
                            (case spline_channel fit xx yy 2 of
                               Inl e \<Rightarrow> Inl e
                             | Inr cs_z \<Rightarrow>
                                 Inr (mk_array (shape0 X) 3
                                       (\<lambda>i j. ([cs_x, cs_y, cs_z] ! j) (real i)))))))))"

definition magnitude_warp ::
  "spline_fit \<Rightarrow> real ndarray \<Rightarrow> real \<Rightarrow> (nat \<Rightarrow> nat \<Rightarrow> real) \<Rightarrow> py_error + real ndarray" where
  "magnitude_warp fit X sigma z =
     (case generate_random_curves fit X sigma 4 z of
        Inl e \<Rightarrow> Inl e
      | Inr curve \<Rightarrow> broadcast2 (*) X curve)"

subsection \<open>Time warping\<close>

text \<open>
  A call by name is resolved in the module's global namespace when it runs. The
  namespace is a parameter of the model, a map from names to the curve generators
  bound to them; \<open>module_globals\<close> is the namespace the file itself builds, in which
  the only curve generator is bound to \<open>generate_random_curves\<close> (called with its
  default \<open>knot=4\<close>).
\<close>

type_synonym curve_gen = "real ndarray \<Rightarrow> real \<Rightarrow> (nat \<Rightarrow> nat \<Rightarrow> real) \<Rightarrow> py_error + real ndarray"

definition module_globals :: "spline_fit \<Rightarrow> string \<Rightarrow> curve_gen option" where
  "module_globals fit =
     Map.empty(''generate_random_curves'' \<mapsto> (\<lambda>X sigma z. generate_random_curves fit X sigma 4 z))"

text \<open>\<open>np.cumsum(tt, axis=0)\<close>: entry \<open>(i, j)\<close> is the sum of column \<open>j\<close> up to row \<open>i\<close>.\<close>

definition np_cumsum0 :: "real ndarray \<Rightarrow> real ndarray" where
  "np_cumsum0 A =
     mk_array (shape0 A) (shape1 A) (\<lambda>i j. sum_list (map (\<lambda>k. rows A ! k ! j) [0..<Suc i]))"

text \<open>\<open>A[-1, c]\<close>.\<close>

definition last_row_entry :: "'a ndarray \<Rightarrow> nat \<Rightarrow> py_error + 'a" where
  "last_row_entry A c =
     (if shape0 A = 0 \<or> shape1 A \<le> c then Inl IndexError else Inr (last (rows A) ! c))"

text \<open>\<open>(X.shape[0]-1)/tt_cum[-1,c]\<close>, a float64 division: by zero it gives \<open>inf\<close> or \<open>nan\<close>.\<close>

definition t_scale_entry :: "nat \<Rightarrow> real ndarray \<Rightarrow> nat \<Rightarrow> py_error + real" where
  "t_scale_entry m tt_cum c =
     (case last_row_entry tt_cum c of
        Inl e \<Rightarrow> Inl e
      | Inr v \<Rightarrow> if v = 0 then Inl NotFinite else Inr ((real m - 1) / v))"

text \<open>\<open>tt_cum[:,c] = tt_cum[:,c]*t\<close>.\<close>

definition scale_column :: "real ndarray \<Rightarrow> nat \<Rightarrow> real \<Rightarrow> py_error + real ndarray" where
  "scale_column A c t =
     (case column A c of Inl e \<Rightarrow> Inl e | Inr v \<Rightarrow> set_column A c (map (\<lambda>x. x * t) v))"

definition distort_timesteps ::
  "(string \<Rightarrow> curve_gen option) \<Rightarrow> real ndarray \<Rightarrow> real \<Rightarrow> (nat \<Rightarrow> nat \<Rightarrow> real) \<Rightarrow> py_error + real ndarray" where
  "distort_timesteps globals X sigma z =
     (case globals ''GenerateRandomCurves'' of
        None \<Rightarrow> Inl NameError
      | Some g \<Rightarrow>
          (case g X sigma z of
             Inl e \<Rightarrow> Inl e
           | Inr tt \<Rightarrow>
               (let tt_cum = np_cumsum0 tt in
                case t_scale_entry (shape0 X) tt_cum 0 of
                  Inl e \<Rightarrow> Inl e
                | Inr t0 \<Rightarrow>
                    (case t_scale_entry (shape0 X) tt_cum 1 of
                       Inl e \<Rightarrow> Inl e
                     | Inr t1 \<Rightarrow>
                         (case t_scale_entry (shape0 X) tt_cum 2 of
                            Inl e \<Rightarrow> Inl e
                          | Inr t2 \<Rightarrow>
                              (case scale_column tt_cum 0 t0 of
                                 Inl e \<Rightarrow> Inl e
                               | Inr a \<Rightarrow>
                                   (case scale_column a 1 t1 of
                                      Inl e \<Rightarrow> Inl e
                                    | Inr b \<Rightarrow> scale_column b 2 t2)))))))"

text \<open>\<open>X_new[:,c] = np.interp(x_range, tt_new[:,c], X[:,c])\<close>.\<close>

definition warp_channel ::
  "real ndarray \<Rightarrow> real ndarray \<Rightarrow> real ndarray \<Rightarrow> nat \<Rightarrow> py_error + real ndarray" where
  "warp_channel X tt_new X_new c =
     (case column tt_new c of
        Inl e \<Rightarrow> Inl e
      | Inr xp \<Rightarrow>
          (case column X c of
             Inl e \<Rightarrow> Inl e
           | Inr fp \<Rightarrow>
               (case np_interp (x_range (shape0 X)) xp fp of
                  Inl e \<Rightarrow> Inl e
                | Inr v \<Rightarrow> set_column X_new c v)))"

definition time_warp ::
  "(string \<Rightarrow> curve_gen option) \<Rightarrow> real ndarray \<Rightarrow> real \<Rightarrow> (nat \<Rightarrow> nat \<Rightarrow> real) \<Rightarrow> py_error + real ndarray" where
  "time_warp globals X sigma z =
     (case distort_timesteps globals X sigma z of
        Inl e \<Rightarrow> Inl e
      | Inr tt_new \<Rightarrow>
          (case warp_channel X tt_new (np_zeros (shape0 X) (shape1 X)) 0 of
             Inl e \<Rightarrow> Inl e
           | Inr a \<Rightarrow>
               (case warp_channel X tt_new a 1 of
                  Inl e \<Rightarrow> Inl e
                | Inr b \<Rightarrow> warp_channel X tt_new b 2)))"

subsection \<open>Rotation\<close>

text \<open>\<open>np.random.uniform(low, high)\<close> from a variate \<open>u\<close> of the unit interval.\<close>

definition random_uniform :: "real \<Rightarrow> real \<Rightarrow> real \<Rightarrow> real" where
  "random_uniform low high u = low + (high - low) * u"

text \<open>
  Modelled from the spec: \<open>axangle2mat\<close> is imported from the package transforms3d and is
  not among the repository's files. The spec describes it as the axis-angle to
  rotation-matrix conversion by the standard Rodrigues formula: the axis is unpacked
  into three components (any other number of components cannot be unpacked,
  \<open>ValueError\<close>), normalised, and the matrix of the rotation by \<open>angle\<close> around it is
  returned. A zero axis divides by zero in the normalisation.
\<close>

definition axangle2mat :: "real list \<Rightarrow> real \<Rightarrow> py_error + real ndarray" where
  "axangle2mat axis angle =
     (case axis of
        [x0, y0, z0] \<Rightarrow>
          (let n = sqrt (x0 * x0 + y0 * y0 + z0 * z0) in
           if n = 0 then Inl NotFinite
           else
             (let x = x0 / n; y = y0 / n; z = z0 / n;
                  c = cos angle; s = sin angle; C = 1 - c;
                  xs = x * s; ys = y * s; zs = z * s;
                  xC = x * C; yC = y * C; zC = z * C;
                  xyC = x * yC; yzC = y * zC; zxC = z * xC
              in Inr \<lparr>shape0 = 3, shape1 = 3,
                      rows = [[x * xC + c, xyC - zs, zxC + ys],
                              [xyC + zs, y * yC + c, yzC - xs],
                              [zxC - ys, yzC + xs, z * zC + c]]\<rparr>))
      | _ \<Rightarrow> Inl ValueError)"

definition rotation :: "real ndarray \<Rightarrow> (nat \<Rightarrow> real) \<Rightarrow> real \<Rightarrow> py_error + real ndarray" where
  "rotation X u ua =
     (let axis = map (\<lambda>j. random_uniform (- 1) 1 (u j)) [0..<shape1 X];
          angle = random_uniform (- pi) pi ua
      in case axangle2mat axis angle of
           Inl e \<Rightarrow> Inl e
         | Inr R \<Rightarrow> np_matmul X R)"

subsection \<open>Permutation\<close>

text \<open>
  One pass of the segment search: \<open>segs\<close> is \<open>0\<close>, the sorted cut points drawn from
  \<open>[minSegLength, M - minSegLength)\<close>, and \<open>M\<close>. \<open>np.zeros(nPerm+1)\<close> raises for a negative
  length and \<open>randint\<close> for a negative size, so a result has \<open>nPerm \<ge> 1\<close> and the
  \<open>nPerm - 1\<close> cut points fill \<open>segs[1:-1]\<close> exactly.
\<close>

definition draw_segs :: "nat \<Rightarrow> int \<Rightarrow> int \<Rightarrow> (nat \<Rightarrow> int) \<Rightarrow> py_error + int list" where
  "draw_segs m nPerm minSegLength d =
     (if nPerm + 1 < 0 then Inl ValueError
      else
        (case randint minSegLength (int m - minSegLength) (nPerm - 1) d of
           Inl e \<Rightarrow> Inl e
         | Inr r \<Rightarrow> Inr (0 # sort r @ [int m])))"

text \<open>\<open>segs[1:]-segs[0:-1]\<close>.\<close>

definition seg_diffs :: "int list \<Rightarrow> int list" where
  "seg_diffs segs = map (\<lambda>(a, b). b - a) (zip (butlast segs) (tl segs))"

text \<open>
  The \<open>while\<close> loop. It has no bound in the source: \<open>None\<close> is the loop that never
  leaves. \<open>cuts k\<close> holds the integers \<open>randint\<close> returned in pass \<open>k\<close>.
\<close>

partial_function (option) find_segs ::
  "nat \<Rightarrow> int \<Rightarrow> int \<Rightarrow> (nat \<Rightarrow> nat \<Rightarrow> int) \<Rightarrow> nat \<Rightarrow> (py_error + int list) option" where
  "find_segs m nPerm minSegLength cuts k =
     (case draw_segs m nPerm minSegLength (cuts k) of
        Inl e \<Rightarrow> Some (Inl e)
      | Inr segs \<Rightarrow>
          if minSegLength < min_list (seg_diffs segs) then Some (Inr segs)
          else find_segs m nPerm minSegLength cuts (Suc k))"

text \<open>
  The loop is left in pass \<open>j\<close> with outcome \<open>r\<close>: an error of that pass, or its accepted
  segment bounds.
\<close>

definition leaves_at ::
  "nat \<Rightarrow> int \<Rightarrow> int \<Rightarrow> (nat \<Rightarrow> nat \<Rightarrow> int) \<Rightarrow> nat \<Rightarrow> py_error + int list \<Rightarrow> bool" where
  "leaves_at m nPerm minSegLength cuts j r =
     (case draw_segs m nPerm minSegLength (cuts j) of
        Inl e \<Rightarrow> r = Inl e
      | Inr segs \<Rightarrow> r = Inr segs \<and> minSegLength < min_list (seg_diffs segs))"

text \<open>
  Python's slice \<open>xs[a:b]\<close>: a negative bound counts from the end, and both bounds are
  clipped to the list.
\<close>

definition py_bound :: "nat \<Rightarrow> int \<Rightarrow> nat" where
  "py_bound n i = (if i < 0 then nat (max 0 (int n + i)) else min (nat i) n)"

definition py_slice :: "'a list \<Rightarrow> int \<Rightarrow> int \<Rightarrow> 'a list" where
  "py_slice xs a b =
     (let s = py_bound (length xs) a; e = py_bound (length xs) b in take (e - s) (drop s xs))"

text \<open>
  \<open>A[pp:pp+len(src), :] = src\<close>: the target rows are clipped to the array; the source
  must have as many rows as the target, or one row that numpy repeats.
\<close>

definition assign_rows :: "'a ndarray \<Rightarrow> nat \<Rightarrow> 'a list list \<Rightarrow> py_error + 'a ndarray" where
  "assign_rows A pp src =
     (let s = min pp (shape0 A); e = min (pp + length src) (shape0 A) in
      if length src = e - s
        then Inr (A\<lparr>rows := take s (rows A) @ src @ drop e (rows A)\<rparr>)
      else if length src = 1
        then Inr (A\<lparr>rows := take s (rows A) @ replicate (e - s) (hd src) @ drop e (rows A)\<rparr>)
      else Inl ValueError)"

text \<open>
  The copy loop \<open>for ii in range(nPerm)\<close>, over \<open>idx\<close>, the array
  \<open>np.random.permutation(nPerm)\<close> returned (of length \<open>nPerm\<close>).
\<close>

fun place_segments ::
  "real ndarray \<Rightarrow> int list \<Rightarrow> nat list \<Rightarrow> real ndarray \<Rightarrow> nat \<Rightarrow> py_error + real ndarray" where
  "place_segments X segs [] X_new pp = Inr X_new"
| "place_segments X segs (i # idx) X_new pp =
     (if length segs \<le> Suc i then Inl IndexError
      else
        (let x_temp = py_slice (rows X) (segs ! i) (segs ! Suc i) in
         case assign_rows X_new pp x_temp of
           Inl e \<Rightarrow> Inl e
         | Inr X_new' \<Rightarrow> place_segments X segs idx X_new' (pp + length x_temp)))"

definition permutation ::
  "real ndarray \<Rightarrow> int \<Rightarrow> int \<Rightarrow> nat list \<Rightarrow> (nat \<Rightarrow> nat \<Rightarrow> int) \<Rightarrow> (py_error + real ndarray) option" where
  "permutation X nPerm minSegLength idx cuts =
     (case find_segs (shape0 X) nPerm minSegLength cuts 0 of
        None \<Rightarrow> None
      | Some (Inl e) \<Rightarrow> Some (Inl e)
      | Some (Inr segs) \<Rightarrow>
          Some (place_segments X segs idx (np_zeros (shape0 X) (shape1 X)) 0))"

subsection \<open>Random sampling\<close>

text \<open>\<open>A[1:-1, c] = v\<close> and \<open>A[-1, :] = v\<close>.\<close>

definition assign_inner_column :: "'a ndarray \<Rightarrow> nat \<Rightarrow> 'a list \<Rightarrow> py_error + 'a ndarray" where
  "assign_inner_column A c v =
     (if shape1 A \<le> c then Inl IndexError
      else if length v = shape0 A - 2
        then Inr (A\<lparr>rows := map (\<lambda>(i, r). if 1 \<le> i \<and> Suc i < shape0 A then r[c := v ! (i - 1)] else r)
                             (enumerate 0 (rows A))\<rparr>)
      else if length v = 1
        then Inr (A\<lparr>rows := map (\<lambda>(i, r). if 1 \<le> i \<and> Suc i < shape0 A then r[c := hd v] else r)
                             (enumerate 0 (rows A))\<rparr>)
      else Inl ValueError)"

definition assign_last_row :: "'a ndarray \<Rightarrow> 'a \<Rightarrow> py_error + 'a ndarray" where
  "assign_last_row A v =
     (if shape0 A = 0 then Inl IndexError
      else Inr (A\<lparr>rows := butlast (rows A) @ [replicate (shape1 A) v]\<rparr>))"

text \<open>\<open>tt[1:-1,c] = np.sort(np.random.randint(1, X.shape[0]-1, nSample-2))\<close>.\<close>

definition sample_channel ::
  "int ndarray \<Rightarrow> nat \<Rightarrow> int \<Rightarrow> (nat \<Rightarrow> int) \<Rightarrow> nat \<Rightarrow> py_error + int ndarray" where
  "sample_channel tt m nSample d c =
     (case randint 1 (int m - 1) (nSample - 2) d of
        Inl e \<Rightarrow> Inl e
      | Inr r \<Rightarrow> assign_inner_column tt c (sort r))"

definition rand_sample_timesteps ::
  "real ndarray \<Rightarrow> int \<Rightarrow> (nat \<Rightarrow> nat \<Rightarrow> int) \<Rightarrow> py_error + int ndarray" where
  "rand_sample_timesteps X nSample d =
     (if nSample < 0 then Inl ValueError
      else
        (case sample_channel (np_zeros (nat nSample) (shape1 X)) (shape0 X) nSample (d 0) 0 of
           Inl e \<Rightarrow> Inl e
         | Inr a \<Rightarrow>
             (case sample_channel a (shape0 X) nSample (d 1) 1 of
                Inl e \<Rightarrow> Inl e
              | Inr b \<Rightarrow>
                  (case sample_channel b (shape0 X) nSample (d 2) 2 of
                     Inl e \<Rightarrow> Inl e
                   | Inr tt \<Rightarrow> assign_last_row tt (int (shape0 X) - 1)))))"

text \<open>
  \<open>X[ts, c]\<close> with an integer array \<open>ts\<close>: an index outside \<open>[-M, M)\<close> raises, a negative
  one counts from the end.
\<close>

definition take_rows :: "real ndarray \<Rightarrow> int list \<Rightarrow> nat \<Rightarrow> py_error + real list" where
  "take_rows X ts c =
     (if shape1 X \<le> c then Inl IndexError
      else if list_all (\<lambda>t. - int (shape0 X) \<le> t \<and> t < int (shape0 X)) ts
        then Inr (map (\<lambda>t. rows X ! nat (if t < 0 then t + int (shape0 X) else t) ! c) ts)
      else Inl IndexError)"

text \<open>\<open>X_new[:,c] = np.interp(np.arange(X.shape[0]), tt[:,c], X[tt[:,c],c])\<close>.\<close>

definition sample_interp ::
  "real ndarray \<Rightarrow> int ndarray \<Rightarrow> real ndarray \<Rightarrow> nat \<Rightarrow> py_error + real ndarray" where
  "sample_interp X tt X_new c =
     (case column tt c of
        Inl e \<Rightarrow> Inl e
      | Inr ts \<Rightarrow>
          (case take_rows X ts c of
             Inl e \<Rightarrow> Inl e
           | Inr fp \<Rightarrow>
               (case np_interp (x_range (shape0 X)) (map real_of_int ts) fp of
                  Inl e \<Rightarrow> Inl e
                | Inr v \<Rightarrow> set_column X_new c v)))"

definition rand_sampling ::
  "real ndarray \<Rightarrow> int \<Rightarrow> (nat \<Rightarrow> nat \<Rightarrow> int) \<Rightarrow> py_error + real ndarray" where
  "rand_sampling X nSample d =
     (case rand_sample_timesteps X nSample d of
        Inl e \<Rightarrow> Inl e
      | Inr tt \<Rightarrow>
          (case sample_interp X tt (np_zeros (shape0 X) (shape1 X)) 0 of
             Inl e \<Rightarrow> Inl e
           | Inr a \<Rightarrow>
               (case sample_interp X tt a 1 of
                  Inl e \<Rightarrow> Inl e
                | Inr b \<Rightarrow> sample_interp X tt b 2)))"

section \<open>Arrays\<close>

lemma shape_mk_array [simp]:
  "shape0 (mk_array m n f) = m" "shape1 (mk_array m n f) = n"
  by (simp_all add: mk_array_def)

lemma bdim_same [simp]: "bdim a a = Some a"
  by (simp add: bdim_def)

lemma shape_np_ones [simp]: "shape0 (np_ones m n) = m" "shape1 (np_ones m n) = n"
  by (simp_all add: np_ones_def)

lemma shape_np_zeros [simp]: "shape0 (np_zeros m n) = m" "shape1 (np_zeros m n) = n"
  by (simp_all add: np_zeros_def)

lemma mk_array_nth:
  assumes "wf_array (X :: 'a ndarray)"
  shows "mk_array (shape0 X) (shape1 X) (\<lambda>i j. rows X ! i ! j) = X"
proof -
  have len: "length (rows X) = shape0 X"
    and row: "\<And>i. i < shape0 X \<Longrightarrow> length (rows X ! i) = shape1 X"
    using assms by (auto simp: wf_array_def list_all_length)
  have "map (\<lambda>i. map ((!) (rows X ! i)) [0..<shape1 X]) [0..<shape0 X] = rows X"
  proof (rule nth_equalityI)
    show "length (map (\<lambda>i. map ((!) (rows X ! i)) [0..<shape1 X]) [0..<shape0 X]) = length (rows X)"
      by (simp add: len)
  next
    fix i
    assume "i < length (map (\<lambda>i. map ((!) (rows X ! i)) [0..<shape1 X]) [0..<shape0 X])"
    then have i: "i < shape0 X" by simp
    have "map ((!) (rows X ! i)) [0..<length (rows X ! i)] = rows X ! i"
      by (rule map_nth)
    then show "map (\<lambda>i. map ((!) (rows X ! i)) [0..<shape1 X]) [0..<shape0 X] ! i = rows X ! i"
      using i by (simp add: row)
  qed
  then show ?thesis by (simp add: mk_array_def)
qed

lemma mk_array_cong:
  assumes "\<And>i j. i < m \<Longrightarrow> j < n \<Longrightarrow> f i j = g i j"
  shows "mk_array m n f = mk_array m n g"
  using assms by (simp add: mk_array_def)

lemma rows_mk_array_nth [simp]:
  assumes "i < m" "j < n"
  shows "rows (mk_array m n f) ! i ! j = f i j"
  using assms by (simp add: mk_array_def)

lemma at2_mk_array:
  assumes "i < m" "j < n"
  shows "at2 (mk_array m n f) i j = f i j"
  using assms by (auto simp: at2_def mk_array_def)

lemma at2_wf:
  assumes "i < shape0 X" "j < shape1 X"
  shows "at2 X i j = rows X ! i ! j"
  using assms by (auto simp: at2_def)

section \<open>Jitter\<close>

text \<open>
  Claim C8. With noise scale \<open>sigma = 0\<close> every noise entry is \<open>0 + 0 * z = 0\<close>, whatever
  the generator draws, and \<open>jitter\<close> returns its input entry for entry.
\<close>

theorem jitter_sigma_zero:
  assumes "wf_array X"
  shows "jitter X 0 z = Inr X"
proof -
  have "mk_array (shape0 X) (shape1 X)
          (\<lambda>i j. at2 X i j + at2 (mk_array (shape0 X) (shape1 X) (\<lambda>i j. 0)) i j)
        = mk_array (shape0 X) (shape1 X) (\<lambda>i j. rows X ! i ! j)"
    by (rule mk_array_cong) (simp add: at2_mk_array at2_wf)
  then show ?thesis
    using mk_array_nth [OF assms]
    by (simp add: jitter_def random_normal_def broadcast2_def)
qed

theorem jitter_sigma_zero_witness:
  "wf_array \<lparr>shape0 = 2, shape1 = 3, rows = [[1, - 2, 3], [0, 5, 1 / 2 :: real]]\<rparr> \<and>
   jitter \<lparr>shape0 = 2, shape1 = 3, rows = [[1, - 2, 3], [0, 5, 1 / 2]]\<rparr> 0 (\<lambda>i j. real (i + j) - 1)
     = Inr \<lparr>shape0 = 2, shape1 = 3, rows = [[1, - 2, 3], [0, 5, 1 / 2]]\<rparr>"
  using jitter_sigma_zero
    [of "\<lparr>shape0 = 2, shape1 = 3, rows = [[1, - 2, 3], [0, 5, 1 / 2]]\<rparr>" "\<lambda>i j. real (i + j) - 1"]
  by (simp add: wf_array_def)

section \<open>Scaling\<close>

text \<open>
  Claim C7. \<open>scaling\<close> applies one factor per channel: for a standard deviation
  \<open>sigma \<ge> 0\<close> the output entry at row \<open>i\<close>, column \<open>j\<close> is \<open>X[i][j]\<close> times the factor
  \<open>1 + sigma * z\<^sub>j\<close> drawn for column \<open>j\<close> (a normal variate of mean 1 and deviation
  \<open>sigma\<close>), the same factor in every row.
\<close>

theorem scaling_one_factor_per_channel:
  assumes "0 \<le> sigma"
  shows "scaling X sigma z =
           Inr (mk_array (shape0 X) (shape1 X) (\<lambda>i j. rows X ! i ! j * (1 + sigma * z 0 j)))"
proof -
  have "scaling X sigma z =
          Inr (mk_array (shape0 X) (shape1 X)
                (\<lambda>i j. at2 X i j *
                   at2 (mk_array (shape0 X) (shape1 X)
                         (\<lambda>i j. rows (np_ones (shape0 X) (Suc 0)) ! i ! 0 *
                            rows (mk_array (Suc 0) (shape1 X) (\<lambda>i j. 1 + sigma * z i j)) ! 0 ! j))
                     i j))"
    using assms
    by (simp add: scaling_def random_normal_def np_matmul_def broadcast2_def)
  also have "mk_array (shape0 X) (shape1 X)
                (\<lambda>i j. at2 X i j *
                   at2 (mk_array (shape0 X) (shape1 X)
                         (\<lambda>i j. rows (np_ones (shape0 X) (Suc 0)) ! i ! 0 *
                            rows (mk_array (Suc 0) (shape1 X) (\<lambda>i j. 1 + sigma * z i j)) ! 0 ! j))
                     i j)
        = mk_array (shape0 X) (shape1 X) (\<lambda>i j. rows X ! i ! j * (1 + sigma * z 0 j))"
    by (rule mk_array_cong) (simp add: at2_wf np_ones_def)
  finally show ?thesis .
qed

theorem scaling_one_factor_per_channel_witness:
  "(0::real) \<le> 1 / 2 \<and>
   scaling \<lparr>shape0 = 2, shape1 = 2, rows = [[1, 2], [3, 4]]\<rparr> (1 / 2) (\<lambda>i j. real j * 2)
     = Inr \<lparr>shape0 = 2, shape1 = 2, rows = [[1, 4], [3, 8]]\<rparr>"
  using scaling_one_factor_per_channel
    [of "1 / 2" "\<lparr>shape0 = 2, shape1 = 2, rows = [[1, 2], [3, 4]]\<rparr>" "\<lambda>i j. real j * 2"]
  by (simp add: mk_array_def upt_rec)

section \<open>Time warping\<close>

text \<open>
  Claim C9. \<open>distort_timesteps\<close> calls \<open>GenerateRandomCurves\<close>, a name the module never
  binds (its generator is \<open>generate_random_curves\<close>): in the module's own namespace
  \<open>time_warp\<close> raises \<open>NameError\<close> on every input and never returns a matrix.
\<close>

theorem time_warp_name_error:
  "time_warp (module_globals fit) X sigma z = Inl NameError"
  by (simp add: time_warp_def distort_timesteps_def module_globals_def)

section \<open>Permutation\<close>

lemma find_segs_SomeD:
  assumes "find_segs m nPerm minSegLength cuts k = Some r"
  shows "\<exists>j. leaves_at m nPerm minSegLength cuts j r"
proof (rule find_segs.raw_induct
    [where P = "\<lambda>m nPerm minSegLength cuts k r. \<exists>j. leaves_at m nPerm minSegLength cuts j r",
      OF _ assms])
  fix f :: "nat \<Rightarrow> int \<Rightarrow> int \<Rightarrow> (nat \<Rightarrow> nat \<Rightarrow> int) \<Rightarrow> nat \<Rightarrow> (py_error + int list) option"
  fix m nPerm minSegLength cuts k r
  assume IH: "\<And>m nPerm minSegLength cuts k r.
      f m nPerm minSegLength cuts k = Some r \<Longrightarrow> \<exists>j. leaves_at m nPerm minSegLength cuts j r"
  assume body: "(case draw_segs m nPerm minSegLength (cuts k) of
        Inl e \<Rightarrow> Some (Inl e)
      | Inr segs \<Rightarrow>
          if minSegLength < min_list (seg_diffs segs) then Some (Inr segs)
          else f m nPerm minSegLength cuts (Suc k)) = Some r"
  show "\<exists>j. leaves_at m nPerm minSegLength cuts j r"
  proof (cases "draw_segs m nPerm minSegLength (cuts k)")
    case (Inl e)
    with body have "r = Inl e" by simp
    then have "leaves_at m nPerm minSegLength cuts k r"
      by (simp add: leaves_at_def Inl)
    then show ?thesis ..
  next
    case (Inr segs)
    show ?thesis
    proof (cases "minSegLength < min_list (seg_diffs segs)")
      case True
      with Inr body have "r = Inr segs" by simp
      then have "leaves_at m nPerm minSegLength cuts k r"
        by (simp add: leaves_at_def Inr True)
      then show ?thesis ..
    next
      case False
      with Inr body have "f m nPerm minSegLength cuts (Suc k) = Some r" by simp
      then show ?thesis by (rule IH)
    qed
  qed
qed

lemma find_segs_rejecting:
  assumes "\<And>j r. \<not> leaves_at m nPerm minSegLength cuts j r"
  shows "find_segs m nPerm minSegLength cuts k = None"
proof (cases "find_segs m nPerm minSegLength cuts k")
  case None
  then show ?thesis .
next
  case (Some r)
  from find_segs_SomeD [OF Some] assms show ?thesis by blast
qed


lemma seg_diffs_Cons2: "seg_diffs (x # y # ys) = (y - x) # seg_diffs (y # ys)"
  by (simp add: seg_diffs_def)

lemma seg_diffs_single: "seg_diffs [x] = []"
  by (simp add: seg_diffs_def)

lemma sum_seg_diffs: "xs \<noteq> [] \<Longrightarrow> sum_list (seg_diffs xs) = last xs - hd xs"
proof (induction xs rule: induct_list012)
  case 1
  then show ?case by simp
next
  case (2 x)
  then show ?case by (simp add: seg_diffs_single)
next
  case (3 x y zs)
  then show ?case by (simp add: seg_diffs_Cons2)
qed

lemma length_seg_diffs: "length (seg_diffs xs) = length xs - 1"
  by (simp add: seg_diffs_def)

lemma sum_list_lower:
  fixes ds :: "int list"
  assumes "\<forall>d \<in> set ds. b \<le> d"
  shows "int (length ds) * b \<le> sum_list ds"
  using assms
proof (induction ds)
  case Nil
  then show ?case by simp
next
  case (Cons d ds)
  then have "b \<le> d" and "int (length ds) * b \<le> sum_list ds" by simp_all
  then show ?case by (simp add: algebra_simps)
qed

lemma min_list_greater:
  fixes ds :: "int list"
  assumes "ds \<noteq> []" and "c < min_list ds"
  shows "\<forall>d \<in> set ds. c + 1 \<le> d"
proof -
  have "min_list ds = Min (set ds)" using assms(1) by (rule min_list_Min)
  with assms show ?thesis by auto
qed

lemma draw_segs_InrD:
  assumes "draw_segs m nPerm minSegLength d = Inr segs"
  shows "1 \<le> nPerm" and "length segs = nat nPerm + 1" and "hd segs = 0" and "last segs = int m"
proof -
  from assms obtain r where r: "randint minSegLength (int m - minSegLength) (nPerm - 1) d = Inr r"
    and segs: "segs = 0 # sort r @ [int m]"
    by (auto simp: draw_segs_def split: if_splits sum.splits)
  from r have n: "1 \<le> nPerm" and len: "length r = nat (nPerm - 1)"
    by (auto simp: randint_def split: if_splits)
  show "1 \<le> nPerm" by (rule n)
  show "length segs = nat nPerm + 1" using n len segs by simp
  show "hd segs = 0" using segs by simp
  show "last segs = int m" using segs by simp
qed

lemma accepted_needs_room:
  assumes "draw_segs m nPerm minSegLength d = Inr segs"
    and "minSegLength < min_list (seg_diffs segs)"
  shows "nPerm * (minSegLength + 1) \<le> int m"
proof -
  note D = draw_segs_InrD [OF assms(1)]
  have ne: "seg_diffs segs \<noteq> []"
    using D(1,2) length_seg_diffs [of segs] by auto
  have "\<forall>d \<in> set (seg_diffs segs). minSegLength + 1 \<le> d"
    using ne assms(2) by (rule min_list_greater)
  then have "int (length (seg_diffs segs)) * (minSegLength + 1) \<le> sum_list (seg_diffs segs)"
    by (rule sum_list_lower)
  moreover have "segs \<noteq> []" using D(2) by auto
  then have "sum_list (seg_diffs segs) = int m"
    using D(3,4) by (simp add: sum_seg_diffs)
  moreover have "int (length (seg_diffs segs)) = nPerm"
    using D(1,2) by (simp add: length_seg_diffs)
  ultimately show ?thesis by simp
qed


text \<open>
  Claim C1, as the code has it. The module has no parameter check and no
  \<open>InvalidParameters\<close> error. When \<open>nPerm * minSegLength \<ge> M\<close> the call never returns a
  matrix: the first pass raises \<open>ValueError\<close> when \<open>nPerm \<le> 0\<close> (in \<open>np.zeros\<close> for
  \<open>nPerm \<le> - 2\<close>, in \<open>randint\<close> for the negative size otherwise), or when \<open>nPerm \<ge> 2\<close> and
  \<open>randint\<close>'s range of cut points \<open>[minSegLength, M - minSegLength)\<close> is empty; in every
  other case each pass is rejected and the search loop never ends.
\<close>

theorem permutation_too_short:
  assumes "int (shape0 X) \<le> nPerm * minSegLength"
  shows "permutation X nPerm minSegLength idx cuts =
           (if nPerm \<le> 0 \<or> (2 \<le> nPerm \<and> int (shape0 X) \<le> 2 * minSegLength)
            then Some (Inl ValueError) else None)"
proof (cases "nPerm \<le> 0 \<or> (2 \<le> nPerm \<and> int (shape0 X) \<le> 2 * minSegLength)")
  case True
  then have "draw_segs (shape0 X) nPerm minSegLength (cuts 0) = Inl ValueError"
    by (auto simp: draw_segs_def randint_def)
  then have "find_segs (shape0 X) nPerm minSegLength cuts 0 = Some (Inl ValueError)"
    by (subst find_segs.simps) simp
  with True show ?thesis by (simp add: permutation_def)
next
  case False
  have "\<not> leaves_at (shape0 X) nPerm minSegLength cuts j r" for j r
  proof
    assume L: "leaves_at (shape0 X) nPerm minSegLength cuts j r"
    from False have "\<exists>segs. draw_segs (shape0 X) nPerm minSegLength (cuts j) = Inr segs"
      by (auto simp: draw_segs_def randint_def)
    then obtain segs where segs: "draw_segs (shape0 X) nPerm minSegLength (cuts j) = Inr segs" ..
    with L have "minSegLength < min_list (seg_diffs segs)" by (simp add: leaves_at_def)
    with segs have "nPerm * (minSegLength + 1) \<le> int (shape0 X)" by (rule accepted_needs_room)
    with assms False show False by (simp add: algebra_simps)
  qed
  then have "find_segs (shape0 X) nPerm minSegLength cuts 0 = None"
    by (rule find_segs_rejecting)
  with False show ?thesis by (simp add: permutation_def)
qed



lemma concat_consecutive:
  fixes b :: "nat \<Rightarrow> nat"
  assumes "b 0 = 0" and "\<And>k. k < n \<Longrightarrow> b k \<le> b (Suc k)"
  shows "concat (map (\<lambda>k. take (b (Suc k) - b k) (drop (b k) xs)) [0..<n]) = take (b n) xs"
  using assms(2)
proof (induction n)
  case 0
  then show ?case by (simp add: assms(1))
next
  case (Suc n)
  then have IH: "concat (map (\<lambda>k. take (b (Suc k) - b k) (drop (b k) xs)) [0..<n]) = take (b n) xs"
    and le: "b n \<le> b (Suc n)" by simp_all
  have "take (b n + (b (Suc n) - b n)) xs = take (b n) xs @ take (b (Suc n) - b n) (drop (b n) xs)"
    by (rule take_add)
  with le IH show ?case by simp
qed

lemma sum_consecutive:
  fixes b :: "nat \<Rightarrow> nat"
  assumes "\<And>k. k < n \<Longrightarrow> b k \<le> b (Suc k)"
  shows "sum_list (map (\<lambda>k. b (Suc k) - b k) [0..<n]) + b 0 = b n"
  using assms
proof (induction n)
  case 0
  then show ?case by simp
next
  case (Suc n)
  then have "sum_list (map (\<lambda>k. b (Suc k) - b k) [0..<n]) + b 0 = b n"
    and "b n \<le> b (Suc n)" by simp_all
  then show ?case by simp
qed

lemma sum_list_perm:
  fixes f :: "nat \<Rightarrow> nat"
  assumes "mset xs = mset ys"
  shows "sum_list (map f xs) = sum_list (map f ys)"
proof -
  have "sum_mset (mset (map f xs)) = sum_mset (mset (map f ys))"
    using assms by (metis mset_map)
  then show ?thesis by (simp only: sum_mset_sum_list)
qed

lemma mset_concat_perm:
  assumes "mset xs = mset ys"
  shows "mset (concat (map f xs)) = mset (concat (map f ys))"
proof -
  have "sum_mset (mset (map (\<lambda>x. mset (f x)) xs)) = sum_mset (mset (map (\<lambda>x. mset (f x)) ys))"
    using assms by (metis mset_map)
  then have "sum_list (map (\<lambda>x. mset (f x)) xs) = sum_list (map (\<lambda>x. mset (f x)) ys)"
    by (simp only: sum_mset_sum_list)
  then show ?thesis by (simp add: mset_concat comp_def)
qed

lemma py_slice_inside:
  assumes "0 \<le> a" and "a \<le> b" and "b \<le> int (length xs)"
  shows "py_slice xs a b = take (nat b - nat a) (drop (nat a) xs)"
    and "length (py_slice xs a b) = nat b - nat a"
proof -
  have a: "py_bound (length xs) a = nat a" and b: "py_bound (length xs) b = nat b"
    using assms by (simp_all add: py_bound_def)
  show "py_slice xs a b = take (nat b - nat a) (drop (nat a) xs)"
    by (simp add: py_slice_def Let_def a b)
  have "nat b \<le> length xs" using assms by simp
  then show "length (py_slice xs a b) = nat b - nat a"
    by (simp add: py_slice_def Let_def a b)
qed


lemma place_segments_concat:
  assumes "\<forall>i \<in> set idx. Suc i < length segs \<and> 0 \<le> segs ! i \<and> segs ! i \<le> segs ! Suc i \<and>
                          segs ! Suc i \<le> int (length (rows X))"
    and "length (rows A) = shape0 A"
    and "pp + sum_list (map (\<lambda>i. nat (segs ! Suc i) - nat (segs ! i)) idx) \<le> shape0 A"
  shows "\<exists>Y. place_segments X segs idx A pp = Inr Y \<and> shape0 Y = shape0 A \<and> shape1 Y = shape1 A \<and>
           rows Y = take pp (rows A)
                    @ concat (map (\<lambda>i. take (nat (segs ! Suc i) - nat (segs ! i))
                                          (drop (nat (segs ! i)) (rows X))) idx)
                    @ drop (pp + sum_list (map (\<lambda>i. nat (segs ! Suc i) - nat (segs ! i)) idx)) (rows A)"
  using assms
proof (induction idx arbitrary: A pp)
  case Nil
  then show ?case by simp
next
  case (Cons i idx)
  let ?l = "nat (segs ! Suc i) - nat (segs ! i)"
  let ?rest = "sum_list (map (\<lambda>i. nat (segs ! Suc i) - nat (segs ! i)) idx)"
  let ?x = "py_slice (rows X) (segs ! i) (segs ! Suc i)"
  from Cons.prems(1) have i: "Suc i < length segs" "0 \<le> segs ! i" "segs ! i \<le> segs ! Suc i"
    "segs ! Suc i \<le> int (length (rows X))" by simp_all
  have x: "?x = take ?l (drop (nat (segs ! i)) (rows X))" and lx: "length ?x = ?l"
    using i(2-4) by (rule py_slice_inside)+
  from Cons.prems(3) have room: "pp + ?l + ?rest \<le> shape0 A" by simp
  let ?A = "A\<lparr>rows := take pp (rows A) @ ?x @ drop (pp + ?l) (rows A)\<rparr>"
  have asg: "assign_rows A pp ?x = Inr ?A"
    using room by (simp add: assign_rows_def Let_def lx min_def)
  have lenA: "length (rows ?A) = shape0 ?A"
    using room Cons.prems(2) by (simp add: lx)
  have "\<exists>Y. place_segments X segs idx ?A (pp + ?l) = Inr Y \<and> shape0 Y = shape0 ?A \<and>
          shape1 Y = shape1 ?A \<and>
          rows Y = take (pp + ?l) (rows ?A)
                   @ concat (map (\<lambda>i. take (nat (segs ! Suc i) - nat (segs ! i))
                                         (drop (nat (segs ! i)) (rows X))) idx)
                   @ drop (pp + ?l + ?rest) (rows ?A)"
  proof (rule Cons.IH)
    show "\<forall>i \<in> set idx. Suc i < length segs \<and> 0 \<le> segs ! i \<and> segs ! i \<le> segs ! Suc i \<and>
                          segs ! Suc i \<le> int (length (rows X))"
      using Cons.prems(1) by simp
    show "length (rows ?A) = shape0 ?A" by (rule lenA)
    show "pp + ?l + ?rest \<le> shape0 ?A" using room by simp
  qed
  then obtain Y where Y: "place_segments X segs idx ?A (pp + ?l) = Inr Y"
    "shape0 Y = shape0 A" "shape1 Y = shape1 A"
    "rows Y = take (pp + ?l) (rows ?A)
              @ concat (map (\<lambda>i. take (nat (segs ! Suc i) - nat (segs ! i))
                                    (drop (nat (segs ! i)) (rows X))) idx)
              @ drop (pp + ?l + ?rest) (rows ?A)"
    by auto
  have pl: "pp \<le> length (rows A)" using room Cons.prems(2) by simp
  have t: "take (pp + ?l) (rows ?A) = take pp (rows A) @ ?x"
    using pl by (simp add: lx)
  have d: "drop (pp + ?l + ?rest) (rows ?A) = drop (pp + ?l + ?rest) (rows A)"
    using pl by (simp add: lx add.commute)
  have "place_segments X segs (i # idx) A pp = Inr Y"
    using i(1) asg Y(1) by (simp add: Let_def lx)
  moreover have "rows Y = take pp (rows A)
      @ concat (map (\<lambda>i. take (nat (segs ! Suc i) - nat (segs ! i))
                            (drop (nat (segs ! i)) (rows X))) (i # idx))
      @ drop (pp + sum_list (map (\<lambda>i. nat (segs ! Suc i) - nat (segs ! i)) (i # idx))) (rows A)"
    using Y(4) t d x by (simp add: add.assoc)
  ultimately show ?case using Y(2,3) by simp
qed


lemma nth_seg_diffs:
  assumes "Suc k < length segs"
  shows "seg_diffs segs ! k = segs ! Suc k - segs ! k"
  using assms by (simp add: seg_diffs_def nth_butlast nth_tl)

lemma accepted_gaps:
  assumes "draw_segs m nPerm minSegLength d = Inr segs"
    and "minSegLength < min_list (seg_diffs segs)"
    and "k < nat nPerm"
  shows "minSegLength + 1 \<le> segs ! Suc k - segs ! k"
proof -
  note D = draw_segs_InrD [OF assms(1)]
  have k: "Suc k < length segs" using D(2) assms(3) by simp
  then have kd: "k < length (seg_diffs segs)" by (simp add: length_seg_diffs)
  then have ne: "seg_diffs segs \<noteq> []" by auto
  have "\<forall>d \<in> set (seg_diffs segs). minSegLength + 1 \<le> d"
    using ne assms(2) by (rule min_list_greater)
  moreover have "seg_diffs segs ! k \<in> set (seg_diffs segs)" using kd by (rule nth_mem)
  ultimately have "minSegLength + 1 \<le> seg_diffs segs ! k" by blast
  then show ?thesis by (simp add: nth_seg_diffs [OF k])
qed

lemma steps_mono:
  fixes segs :: "int list"
  assumes "\<And>k. k < n \<Longrightarrow> segs ! k \<le> segs ! Suc k" and "i \<le> j" and "j \<le> n"
  shows "segs ! i \<le> segs ! j"
  using assms(2,3)
proof (induction j)
  case 0
  then show ?case by simp
next
  case (Suc j)
  show ?case
  proof (cases "i = Suc j")
    case True
    then show ?thesis by simp
  next
    case False
    with Suc.prems have "i \<le> j" "j \<le> n" "j < n" by simp_all
    then have "segs ! i \<le> segs ! j" and "segs ! j \<le> segs ! Suc j"
      using Suc.IH assms(1) by simp_all
    then show ?thesis by simp
  qed
qed


lemma place_segments_step:
  assumes "Suc i < length segs"
    and "py_slice (rows X) (segs ! i) (segs ! Suc i) = x"
    and "assign_rows A pp x = Inr A'"
    and "place_segments X segs idx A' (pp + length x) = r"
  shows "place_segments X segs (i # idx) A pp = r"
  using assms by (simp add: Let_def)


text \<open>
  Claim C4, as the code has it. The search accepts a partition when every difference of
  consecutive bounds exceeds \<open>minSegLength\<close>; for \<open>minSegLength < - 1\<close> that admits a
  negative difference, a cut point that is no position of \<open>X\<close>, and the result need not
  keep the rows of \<open>X\<close>. For \<open>minSegLength \<ge> - 1\<close> the claim holds: whenever \<open>permutation\<close>
  returns a matrix \<open>Y\<close> (for a well-formed \<open>X\<close> and \<open>idx\<close> a permutation of \<open>0..nPerm-1\<close>),
  \<open>Y\<close> has the shape of \<open>X\<close> and the same multiset of rows, and it is the concatenation,
  in the order \<open>idx\<close>, of the \<open>nPerm\<close> contiguous segments of \<open>X\<close> between the boundaries
  \<open>bs\<close>, which run from \<open>0\<close> to \<open>M\<close> and leave every segment longer than \<open>minSegLength\<close>.
\<close>

theorem permutation_reblocks:
  assumes "permutation X nPerm minSegLength idx cuts = Some (Inr Y)"
    and "wf_array X" and "- 1 \<le> minSegLength" and "mset idx = mset [0..<nat nPerm]"
  shows "shape0 Y = shape0 X \<and> shape1 Y = shape1 X \<and>
         mset (rows Y) = mset (rows X) \<and>
         (\<exists>bs. length bs = nat nPerm + 1 \<and> bs ! 0 = 0 \<and> bs ! nat nPerm = shape0 X \<and>
               (\<forall>k < nat nPerm. int (bs ! k) + minSegLength < int (bs ! Suc k)) \<and>
               rows Y = concat (map (\<lambda>k. take (bs ! Suc k - bs ! k) (drop (bs ! k) (rows X))) idx))"
proof -
  let ?n = "nat nPerm" and ?M = "shape0 X"
  from assms(1) obtain segs where fs: "find_segs ?M nPerm minSegLength cuts 0 = Some (Inr segs)"
    and pl: "place_segments X segs idx (np_zeros ?M (shape1 X)) 0 = Inr Y"
    by (auto simp: permutation_def split: option.splits sum.splits)
  from find_segs_SomeD [OF fs] obtain j where "leaves_at ?M nPerm minSegLength cuts j (Inr segs)" ..
  then have dr: "draw_segs ?M nPerm minSegLength (cuts j) = Inr segs"
    and acc: "minSegLength < min_list (seg_diffs segs)"
    by (auto simp: leaves_at_def split: sum.splits)
  note D = draw_segs_InrD [OF dr]
  have len: "length segs = Suc ?n" using D(2) by simp
  have s0: "segs ! 0 = 0" using D(3) len by (cases segs) simp_all
  have "segs \<noteq> []" using len by auto
  then have "last segs = segs ! (length segs - 1)" by (rule last_conv_nth)
  then have sn: "segs ! ?n = int ?M" using D(4) len by simp
  have gap: "minSegLength + 1 \<le> segs ! Suc k - segs ! k" if "k < ?n" for k
    using dr acc that by (rule accepted_gaps)
  have step: "segs ! k \<le> segs ! Suc k" if "k < ?n" for k
    using gap [OF that] assms(3) by simp
  have mono: "segs ! i \<le> segs ! j" if "i \<le> j" "j \<le> ?n" for i j
    using step that by (rule steps_mono)
  have nonneg: "0 \<le> segs ! k" if "k \<le> ?n" for k
    using mono [of 0 k] that s0 by simp
  have upper: "segs ! k \<le> int ?M" if "k \<le> ?n" for k
    using mono [of k ?n] that sn by simp
  have lenX: "length (rows X) = ?M" using assms(2) by (simp add: wf_array_def)
  have set_idx: "set idx = {0..<?n}"
    using assms(4) by (metis mset_eq_setD set_upt)
  let ?b = "\<lambda>k. nat (segs ! k)"
  let ?seg = "\<lambda>k. take (?b (Suc k) - ?b k) (drop (?b k) (rows X))"
  have bstep: "?b k \<le> ?b (Suc k)" if "k < ?n" for k
    using step [OF that] by simp
  have total: "sum_list (map (\<lambda>k. ?b (Suc k) - ?b k) idx) = ?M"
  proof -
    have "sum_list (map (\<lambda>k. ?b (Suc k) - ?b k) idx) = sum_list (map (\<lambda>k. ?b (Suc k) - ?b k) [0..<?n])"
      using assms(4) by (rule sum_list_perm)
    moreover have "sum_list (map (\<lambda>k. ?b (Suc k) - ?b k) [0..<?n]) + ?b 0 = ?b ?n"
      using bstep by (rule sum_consecutive)
    ultimately show ?thesis by (simp add: s0 sn)
  qed
  have "\<exists>Y'. place_segments X segs idx (np_zeros ?M (shape1 X)) 0 = Inr Y' \<and>
          shape0 Y' = shape0 (np_zeros ?M (shape1 X) :: real ndarray) \<and>
          shape1 Y' = shape1 (np_zeros ?M (shape1 X) :: real ndarray) \<and>
          rows Y' = take 0 (rows (np_zeros ?M (shape1 X) :: real ndarray))
                    @ concat (map ?seg idx)
                    @ drop (0 + sum_list (map (\<lambda>k. ?b (Suc k) - ?b k) idx))
                        (rows (np_zeros ?M (shape1 X) :: real ndarray))"
  proof (rule place_segments_concat)
    show "\<forall>i \<in> set idx. Suc i < length segs \<and> 0 \<le> segs ! i \<and> segs ! i \<le> segs ! Suc i \<and>
                          segs ! Suc i \<le> int (length (rows X))"
      using set_idx len nonneg step upper lenX by auto
    show "length (rows (np_zeros ?M (shape1 X) :: real ndarray)) = shape0 (np_zeros ?M (shape1 X) :: real ndarray)"
      by (simp add: np_zeros_def mk_array_def)
    show "0 + sum_list (map (\<lambda>k. ?b (Suc k) - ?b k) idx) \<le> shape0 (np_zeros ?M (shape1 X) :: real ndarray)"
      using total by simp
  qed
  with pl total have shape: "shape0 Y = ?M" "shape1 Y = shape1 X"
    and rowsY: "rows Y = concat (map ?seg idx)"
    by (auto simp: np_zeros_def mk_array_def)
  have "mset (rows Y) = mset (concat (map ?seg [0..<?n]))"
    unfolding rowsY using assms(4) by (rule mset_concat_perm)
  also have "concat (map ?seg [0..<?n]) = take (?b ?n) (rows X)"
    using bstep by (intro concat_consecutive) (simp_all add: s0)
  also have "\<dots> = rows X" by (simp add: sn lenX)
  finally have ms: "mset (rows Y) = mset (rows X)" .
  let ?bs = "map nat segs"
  have nth_bs: "?bs ! k = ?b k" if "k \<le> ?n" for k
    using that len by simp
  have "length ?bs = ?n + 1" using len by simp
  moreover have "?bs ! 0 = 0" using nth_bs [of 0] s0 by simp
  moreover have "?bs ! ?n = ?M" using nth_bs [of ?n] sn by simp
  moreover have "\<forall>k < ?n. int (?bs ! k) + minSegLength < int (?bs ! Suc k)"
  proof (intro allI impI)
    fix k assume k: "k < ?n"
    then have "?bs ! k = ?b k" "?bs ! Suc k = ?b (Suc k)" using nth_bs by simp_all
    moreover have "0 \<le> segs ! k" "0 \<le> segs ! Suc k" using nonneg k by simp_all
    ultimately show "int (?bs ! k) + minSegLength < int (?bs ! Suc k)"
      using gap [OF k] by simp
  qed
  moreover have "rows Y = concat (map (\<lambda>k. take (?bs ! Suc k - ?bs ! k) (drop (?bs ! k) (rows X))) idx)"
  proof -
    have "map (\<lambda>k. take (?bs ! Suc k - ?bs ! k) (drop (?bs ! k) (rows X))) idx = map ?seg idx"
    proof (rule map_cong [OF refl])
      fix k assume "k \<in> set idx"
      then have "k < ?n" using set_idx by simp
      then have "?bs ! k = ?b k" "?bs ! Suc k = ?b (Suc k)" using nth_bs by simp_all
      then show "take (?bs ! Suc k - ?bs ! k) (drop (?bs ! k) (rows X)) = ?seg k" by simp
    qed
    then have "concat (map (\<lambda>k. take (?bs ! Suc k - ?bs ! k) (drop (?bs ! k) (rows X))) idx)
               = concat (map ?seg idx)"
      by (rule arg_cong)
    with rowsY show ?thesis by (simp only:)
  qed
  ultimately show ?thesis using shape ms by blast
qed


theorem permutation_too_short_witness:
  "int (shape0 (np_zeros 5 3 :: real ndarray)) \<le> 4 * 10 \<and>
   permutation (np_zeros 5 3) 4 10 [2, 0, 3, 1] (\<lambda>k i. 0) = Some (Inl ValueError) \<and>
   int (shape0 (np_zeros 35 3 :: real ndarray)) \<le> 4 * 10 \<and>
   permutation (np_zeros 35 3) 4 10 [2, 0, 3, 1] (\<lambda>k i. 10 + int i) = None"
  using permutation_too_short [of "np_zeros 5 3" 4 10 "[2, 0, 3, 1]" "\<lambda>k i. 0"]
    permutation_too_short [of "np_zeros 35 3" 4 10 "[2, 0, 3, 1]" "\<lambda>k i. 10 + int i"]
  by simp

text \<open>
  With \<open>M = 30\<close>, \<open>nPerm = 4\<close> and \<open>minSegLength = 10\<close> (so \<open>nPerm * minSegLength \<ge> M\<close>) and
  cut points 12, 12, 12 drawn in every pass, no error is raised: the loop runs forever.
\<close>

theorem permutation_loops_forever:
  "permutation (mk_array 30 3 (\<lambda>i j. real i)) 4 10 [0, 1, 2, 3] (\<lambda>k i. 12) = None"
proof -
  have dr: "draw_segs 30 4 10 (\<lambda>i. 12) = Inr [0, 12, 12, 12, 30]"
    by (simp add: draw_segs_def randint_def upt_rec)
  have "\<not> leaves_at 30 4 10 (\<lambda>k i. 12) j r" for j r
    by (simp add: leaves_at_def dr seg_diffs_def)
  then have "find_segs 30 4 10 (\<lambda>k i. 12) 0 = None"
    by (rule find_segs_rejecting)
  then show ?thesis by (simp add: permutation_def)
qed

theorem permutation_reblocks_witness:
  "permutation \<lparr>shape0 = 7, shape1 = 1, rows = [[1], [2], [3], [4], [5], [6], [7]]\<rparr> 2 2 [1, 0] (\<lambda>k i. 3)
     = Some (Inr \<lparr>shape0 = 7, shape1 = 1, rows = [[4], [5], [6], [7], [1], [2], [3]]\<rparr>) \<and>
   wf_array \<lparr>shape0 = 7, shape1 = 1, rows = [[1], [2], [3], [4], [5], [6], [7 :: real]]\<rparr> \<and>
   (- 1 :: int) \<le> 2 \<and> mset [1, 0 :: nat] = mset [0..<nat 2] \<and>
   mset (rows \<lparr>shape0 = 7, shape1 = 1, rows = [[4], [5], [6], [7], [1], [2], [3 :: real]]\<rparr>)
     = mset (rows \<lparr>shape0 = 7, shape1 = 1, rows = [[1], [2], [3], [4], [5], [6], [7 :: real]]\<rparr>)"
proof -
  let ?X = "\<lparr>shape0 = 7, shape1 = 1, rows = [[1], [2], [3], [4], [5], [6], [7 :: real]]\<rparr>"
  let ?Y = "\<lparr>shape0 = 7, shape1 = 1, rows = [[4], [5], [6], [7], [1], [2], [3 :: real]]\<rparr>"
  have dr: "draw_segs 7 2 2 (\<lambda>i. 3) = Inr [0, 3, 7]"
    by (simp add: draw_segs_def randint_def)
  have fs: "find_segs 7 2 2 (\<lambda>k i. 3) 0 = Some (Inr [0, 3, 7])"
    by (subst find_segs.simps) (simp add: dr seg_diffs_def)
  have ev: "permutation ?X 2 2 [1, 0] (\<lambda>k i. 3) = Some (Inr ?Y)"
    by (simp add: permutation_def fs assign_rows_def py_slice_def py_bound_def np_zeros_def
        mk_array_def upt_rec Let_def)
  have wf: "wf_array ?X" by (simp add: wf_array_def)
  have pm: "mset [1, 0 :: nat] = mset [0..<nat 2]" by (simp add: upt_rec)
  from permutation_reblocks [OF ev wf _ pm] ev wf pm show ?thesis by simp
qed

text \<open>
  With seven rows, \<open>nPerm = 4\<close> and \<open>minSegLength = - 4\<close>, the cut points \<open>- 3, 3, 6\<close> lie in
  \<open>randint\<close>'s range \<open>[- 4, 11)\<close> and the differences \<open>- 3, 6, 3, 1\<close> all exceed \<open>- 4\<close>, so the
  partition is accepted. The slices are \<open>X[0:-3]\<close> (four rows), \<open>X[-3:3]\<close> (empty),
  \<open>X[3:6]\<close> and \<open>X[6:7]\<close>, whose one row is assigned to the empty target \<open>X_new[7:8]\<close>. The
  result repeats the fourth row and has lost the seventh: it is no re-blocking of \<open>X\<close>.
\<close>

theorem permutation_negative_min_length:
  "permutation \<lparr>shape0 = 7, shape1 = 1, rows = [[1], [2], [3], [4], [5], [6], [7]]\<rparr> 4 (- 4)
       [0, 1, 2, 3] (\<lambda>k i. [- 3, 3, 6] ! i)
     = Some (Inr \<lparr>shape0 = 7, shape1 = 1, rows = [[1], [2], [3], [4], [4], [5], [6]]\<rparr>) \<and>
   in_range (- 4) (7 - (- 4)) (4 - 1) (\<lambda>i. [- 3, 3, 6] ! i) \<and>
   mset [[1], [2], [3], [4], [4], [5], [6 :: real]] \<noteq> mset [[1], [2], [3], [4], [5], [6], [7]]"
proof -
  let ?X = "\<lparr>shape0 = 7, shape1 = 1, rows = [[1], [2], [3], [4], [5], [6], [7 :: real]]\<rparr>"
  let ?A = "\<lparr>shape0 = 7, shape1 = 1, rows = [[1], [2], [3], [4], [0], [0], [0 :: real]]\<rparr>"
  let ?Y = "\<lparr>shape0 = 7, shape1 = 1, rows = [[1], [2], [3], [4], [4], [5], [6 :: real]]\<rparr>"
  let ?segs = "[0, - 3, 3, 6, 7 :: int]"
  have dr: "draw_segs 7 4 (- 4) (\<lambda>i. [- 3, 3, 6] ! i) = Inr ?segs"
    by (simp add: draw_segs_def randint_def upt_rec)
  have fs: "find_segs 7 4 (- 4) (\<lambda>k i. [- 3, 3, 6] ! i) 0 = Some (Inr ?segs)"
    by (subst find_segs.simps) (simp add: dr seg_diffs_def)
  have p4: "place_segments ?X ?segs [] ?Y (7 + length [[7 :: real]]) = Inr ?Y"
    by (rule place_segments.simps)
  have p3: "place_segments ?X ?segs [3] ?Y 7 = Inr ?Y"
  proof (rule place_segments_step [OF _ _ _ p4])
    show "Suc 3 < length ?segs" by simp
    show "py_slice (rows ?X) (?segs ! 3) (?segs ! Suc 3) = [[7]]"
      by (simp add: py_slice_def py_bound_def Let_def)
    show "assign_rows ?Y 7 [[7]] = Inr ?Y"
      by (simp add: assign_rows_def Let_def)
  qed
  have "4 + length [[4], [5], [6 :: real]] = 7" by simp
  with p3 have p3': "place_segments ?X ?segs [3] ?Y (4 + length [[4], [5], [6 :: real]]) = Inr ?Y"
    by (simp only:)
  have p2: "place_segments ?X ?segs [2, 3] ?A 4 = Inr ?Y"
  proof (rule place_segments_step [OF _ _ _ p3'])
    show "Suc 2 < length ?segs" by simp
    show "py_slice (rows ?X) (?segs ! 2) (?segs ! Suc 2) = [[4], [5], [6]]"
      by (simp add: py_slice_def py_bound_def Let_def)
    show "assign_rows ?A 4 [[4], [5], [6]] = Inr ?Y"
      by (simp add: assign_rows_def Let_def)
  qed
  have "4 + length ([] :: real list list) = 4" by simp
  with p2 have p2': "place_segments ?X ?segs [2, 3] ?A (4 + length ([] :: real list list)) = Inr ?Y"
    by (simp only:)
  have p1: "place_segments ?X ?segs [1, 2, 3] ?A 4 = Inr ?Y"
  proof (rule place_segments_step [OF _ _ _ p2'])
    show "Suc 1 < length ?segs" by simp
    show "py_slice (rows ?X) (?segs ! 1) (?segs ! Suc 1) = []"
      by (simp add: py_slice_def py_bound_def Let_def)
    show "assign_rows ?A 4 [] = Inr ?A"
      by (simp add: assign_rows_def Let_def)
  qed
  have "0 + length [[1], [2], [3], [4 :: real]] = 4" by simp
  with p1 have p1': "place_segments ?X ?segs [1, 2, 3] ?A (0 + length [[1], [2], [3], [4 :: real]]) = Inr ?Y"
    by (simp only:)
  have p0: "place_segments ?X ?segs [0, 1, 2, 3] (np_zeros 7 1) 0 = Inr ?Y"
  proof (rule place_segments_step [OF _ _ _ p1'])
    show "Suc 0 < length ?segs" by simp
    show "py_slice (rows ?X) (?segs ! 0) (?segs ! Suc 0) = [[1], [2], [3], [4]]"
      by (simp add: py_slice_def py_bound_def Let_def)
    show "assign_rows (np_zeros 7 1) 0 [[1], [2], [3], [4]] = Inr ?A"
      by (simp add: assign_rows_def Let_def np_zeros_def mk_array_def upt_rec)
  qed
  have sh: "shape0 ?X = 7" "shape1 ?X = 1" by simp_all
  have ev: "permutation ?X 4 (- 4) [0, 1, 2, 3] (\<lambda>k i. [- 3, 3, 6] ! i) = Some (Inr ?Y)"
    by (simp only: permutation_def sh fs option.case sum.case p0)
  have ne: "mset [[1], [2], [3], [4], [4], [5], [6 :: real]] \<noteq> mset [[1], [2], [3], [4], [5], [6], [7]]"
  proof
    assume "mset [[1], [2], [3], [4], [4], [5], [6 :: real]] = mset [[1], [2], [3], [4], [5], [6], [7]]"
    then have "set [[1], [2], [3], [4], [4], [5], [6 :: real]] = set [[1], [2], [3], [4], [5], [6], [7]]"
      by (rule mset_eq_setD)
    then have "[7 :: real] \<in> set [[1], [2], [3], [4], [4], [5], [6 :: real]]" by simp
    then show False by simp
  qed
  have rg: "in_range (- 4) (7 - (- 4)) (4 - 1) (\<lambda>i. [- 3, 3, 6] ! i)"
    by (simp add: in_range_def upt_rec)
  from ev rg ne show ?thesis by (intro conjI)
qed

section \<open>Array updates\<close>

lemma wf_arrayD:
  assumes "wf_array A"
  shows "length (rows A) = shape0 A" and "\<And>i. i < shape0 A \<Longrightarrow> length (rows A ! i) = shape1 A"
  using assms by (auto simp: wf_array_def list_all_length)

lemma wf_arrayI:
  assumes "length (rows A) = shape0 A" and "\<And>i. i < shape0 A \<Longrightarrow> length (rows A ! i) = shape1 A"
  shows "wf_array A"
  using assms by (auto simp: wf_array_def list_all_length)

lemma wf_mk_array [simp]: "wf_array (mk_array m n f)"
  by (rule wf_arrayI) (simp_all add: mk_array_def)

lemma wf_np_zeros [simp]: "wf_array (np_zeros m n)"
  by (simp add: np_zeros_def)

lemma rows_np_zeros_nth:
  assumes "i < m" and "j < n"
  shows "rows (np_zeros m n) ! i ! j = 0"
  using assms by (simp add: np_zeros_def)

lemma column_wf:
  assumes "wf_array A" and "c < shape1 A"
  shows "column A c = Inr (map (\<lambda>i. rows A ! i ! c) [0..<shape0 A])"
proof -
  have "map (\<lambda>r. r ! c) (rows A) = map (\<lambda>i. rows A ! i ! c) [0..<length (rows A)]"
    by (rule nth_equalityI) simp_all
  then show ?thesis using assms by (simp add: column_def wf_arrayD(1))
qed

lemma set_column_ok:
  assumes "wf_array A" and "c < shape1 A" and "length v = shape0 A"
  shows "\<exists>A'. set_column A c v = Inr A' \<and> wf_array A' \<and> shape0 A' = shape0 A \<and>
           shape1 A' = shape1 A \<and>
           (\<forall>i < shape0 A. rows A' ! i = (rows A ! i)[c := v ! i])"
proof -
  let ?A = "A\<lparr>rows := map (\<lambda>(r, x). r[c := x]) (zip (rows A) v)\<rparr>"
  note wf = wf_arrayD [OF assms(1)]
  have "set_column A c v = Inr ?A" using assms by (simp add: set_column_def)
  moreover have r: "rows ?A ! i = (rows A ! i)[c := v ! i]" if "i < shape0 A" for i
    using that wf(1) assms(3) by simp
  moreover have "wf_array ?A"
    by (rule wf_arrayI) (simp_all add: wf assms(3))
  ultimately show ?thesis by auto
qed

lemma assign_inner_column_ok:
  assumes "wf_array A" and "c < shape1 A" and "length v + 2 = shape0 A"
  shows "\<exists>A'. assign_inner_column A c v = Inr A' \<and> wf_array A' \<and> shape0 A' = shape0 A \<and>
           shape1 A' = shape1 A \<and>
           (\<forall>i < shape0 A. rows A' ! i =
              (if 1 \<le> i \<and> Suc i < shape0 A then (rows A ! i)[c := v ! (i - 1)] else rows A ! i))"
proof -
  let ?f = "\<lambda>(i, r). if 1 \<le> i \<and> Suc i < shape0 A then r[c := v ! (i - 1)] else r"
  let ?A = "A\<lparr>rows := map ?f (enumerate 0 (rows A))\<rparr>"
  note wf = wf_arrayD [OF assms(1)]
  have "length v = shape0 A - 2" using assms(3) by simp
  then have "assign_inner_column A c v = Inr ?A"
    using assms(2) by (simp add: assign_inner_column_def)
  moreover have r: "rows ?A ! i =
      (if 1 \<le> i \<and> Suc i < shape0 A then (rows A ! i)[c := v ! (i - 1)] else rows A ! i)"
    if "i < shape0 A" for i
    using that wf(1) by (simp add: nth_enumerate_eq)
  moreover have "wf_array ?A"
  proof (rule wf_arrayI)
    show "length (rows ?A) = shape0 ?A" by (simp add: wf(1))
    fix i assume "i < shape0 ?A"
    then have i: "i < shape0 A" by simp
    show "length (rows ?A ! i) = shape1 ?A"
      using r [OF i] wf(2) [OF i] by simp
  qed
  ultimately show ?thesis by auto
qed

lemma assign_last_row_ok:
  assumes "wf_array A" and "0 < shape0 A"
  shows "\<exists>A'. assign_last_row A v = Inr A' \<and> wf_array A' \<and> shape0 A' = shape0 A \<and>
           shape1 A' = shape1 A \<and>
           (\<forall>i < shape0 A. rows A' ! i =
              (if Suc i = shape0 A then replicate (shape1 A) v else rows A ! i))"
proof -
  let ?A = "A\<lparr>rows := butlast (rows A) @ [replicate (shape1 A) v]\<rparr>"
  note wf = wf_arrayD [OF assms(1)]
  have "assign_last_row A v = Inr ?A" using assms(2) by (simp add: assign_last_row_def)
  moreover have r: "rows ?A ! i = (if Suc i = shape0 A then replicate (shape1 A) v else rows A ! i)"
    if "i < shape0 A" for i
    using that wf(1) by (auto simp: nth_append nth_butlast)
  moreover have "wf_array ?A"
  proof (rule wf_arrayI)
    show "length (rows ?A) = shape0 ?A" using assms(2) by (simp add: wf(1))
    fix i assume "i < shape0 ?A"
    then have i: "i < shape0 A" by simp
    show "length (rows ?A ! i) = shape1 ?A"
      using r [OF i] wf(2) [OF i] by simp
  qed
  ultimately show ?thesis by auto
qed


section \<open>Random sampling\<close>

lemma rows_np_zeros_row:
  assumes "i < m"
  shows "rows (np_zeros m n) ! i = replicate n 0"
  using assms by (simp add: np_zeros_def mk_array_def map_replicate_const)

lemma sample_channel_ok:
  assumes "wf_array tt" and "c < shape1 tt" and "shape0 tt = nat nSample" and "2 \<le> nSample"
    and "3 \<le> m"
  shows "\<exists>tt'. sample_channel tt m nSample d c = Inr tt' \<and> wf_array tt' \<and>
           shape0 tt' = shape0 tt \<and> shape1 tt' = shape1 tt \<and>
           (\<forall>i < shape0 tt. rows tt' ! i =
              (if 1 \<le> i \<and> Suc i < shape0 tt
               then (rows tt ! i)[c := sort (map d [0..<nat (nSample - 2)]) ! (i - 1)]
               else rows tt ! i))"
proof -
  let ?r = "map d [0..<nat (nSample - 2)]"
  have "randint 1 (int m - 1) (nSample - 2) d = Inr ?r"
    using assms(4,5) by (simp add: randint_def)
  then have sc: "sample_channel tt m nSample d c = assign_inner_column tt c (sort ?r)"
    by (simp add: sample_channel_def)
  have "length (sort ?r) + 2 = shape0 tt" using assms(3,4) by simp
  with assms(1,2) show ?thesis unfolding sc by (rule assign_inner_column_ok)
qed

lemma rand_sample_timesteps_ok:
  assumes "3 \<le> shape1 X" and "3 \<le> shape0 X" and "2 \<le> nSample"
  shows "\<exists>tt. rand_sample_timesteps X nSample d = Inr tt \<and> wf_array tt \<and>
           shape0 tt = nat nSample \<and> shape1 tt = shape1 X \<and>
           (\<forall>c < 3. column tt c =
              Inr (0 # sort (map (d c) [0..<nat (nSample - 2)]) @ [int (shape0 X) - 1]))"
proof -
  let ?n = "nat nSample" and ?N = "shape1 X" and ?M = "shape0 X"
  let ?s = "\<lambda>c. sort (map (d c) [0..<nat (nSample - 2)])"
  let ?t0 = "np_zeros ?n ?N :: int ndarray"
  have n2: "2 \<le> ?n" using assms(3) by simp
  have ls: "length (?s c) = ?n - 2" for c using assms(3) by simp
  obtain t1 where t1: "sample_channel ?t0 ?M nSample (d 0) 0 = Inr t1" "wf_array t1"
    "shape0 t1 = ?n" "shape1 t1 = ?N"
    "\<forall>i < ?n. rows t1 ! i = (if 1 \<le> i \<and> Suc i < ?n then (rows ?t0 ! i)[0 := ?s 0 ! (i - 1)] else rows ?t0 ! i)"
    using sample_channel_ok [of ?t0 0 nSample ?M "d 0"] assms by auto
  obtain t2 where t2: "sample_channel t1 ?M nSample (d 1) 1 = Inr t2" "wf_array t2"
    "shape0 t2 = ?n" "shape1 t2 = ?N"
    "\<forall>i < ?n. rows t2 ! i = (if 1 \<le> i \<and> Suc i < ?n then (rows t1 ! i)[1 := ?s 1 ! (i - 1)] else rows t1 ! i)"
    using sample_channel_ok [of t1 1 nSample ?M "d 1"] assms t1 by auto
  obtain t3 where t3: "sample_channel t2 ?M nSample (d 2) 2 = Inr t3" "wf_array t3"
    "shape0 t3 = ?n" "shape1 t3 = ?N"
    "\<forall>i < ?n. rows t3 ! i = (if 1 \<le> i \<and> Suc i < ?n then (rows t2 ! i)[2 := ?s 2 ! (i - 1)] else rows t2 ! i)"
    using sample_channel_ok [of t2 2 nSample ?M "d 2"] assms t2 by auto
  have "0 < shape0 t3" using t3(3) n2 by simp
  from assign_last_row_ok [OF t3(2) this, of "int ?M - 1"]
  obtain tt where tt: "assign_last_row t3 (int ?M - 1) = Inr tt" "wf_array tt"
    "shape0 tt = ?n" "shape1 tt = ?N"
    "\<forall>i < ?n. rows tt ! i = (if Suc i = ?n then replicate ?N (int ?M - 1) else rows t3 ! i)"
    unfolding t3(3,4) by blast
  have res: "rand_sample_timesteps X nSample d = Inr tt"
    using assms(3) t1(1) t2(1) t3(1) tt(1) by (simp add: rand_sample_timesteps_def)
  have col: "column tt c = Inr (0 # ?s c @ [int ?M - 1])" if c: "c < 3" for c
  proof -
    have cN: "c < ?N" using c assms(1) by simp
    have "column tt c = Inr (map (\<lambda>i. rows tt ! i ! c) [0..<?n])"
      using tt(2) cN tt(3,4) column_wf [of tt c] by simp
    moreover have "map (\<lambda>i. rows tt ! i ! c) [0..<?n] = 0 # ?s c @ [int ?M - 1]"
    proof (rule nth_equalityI)
      show "length (map (\<lambda>i. rows tt ! i ! c) [0..<?n]) = length (0 # ?s c @ [int ?M - 1])"
        using n2 by (simp add: ls)
    next
      fix i assume "i < length (map (\<lambda>i. rows tt ! i ! c) [0..<?n])"
      then have i: "i < ?n" by simp
      have z: "rows ?t0 ! i = replicate ?N 0" using i by (rule rows_np_zeros_row)
      consider "i = 0" | "1 \<le> i" "Suc i < ?n" | "1 \<le> i" "Suc i = ?n"
        using i by linarith
      then have "rows tt ! i ! c = (0 # ?s c @ [int ?M - 1]) ! i"
      proof cases
        case 1
        then show ?thesis using i n2 tt(5) t3(5) t2(5) t1(5) z cN by simp
      next
        case 2
        have "rows tt ! i = (replicate ?N 0)[0 := ?s 0 ! (i - 1), 1 := ?s 1 ! (i - 1), 2 := ?s 2 ! (i - 1)]"
          using 2 i tt(5) t3(5) t2(5) t1(5) z by simp
        moreover have "i - 1 < length (?s c)" using 2 ls [of c] by linarith
        then have "(0 # ?s c @ [int ?M - 1]) ! i = ?s c ! (i - 1)"
          using 2 by (simp only: nth_Cons' nth_append) simp
        moreover have "c = 0 \<or> c = 1 \<or> c = 2" using c by auto
        ultimately show ?thesis using assms(1) by auto
      next
        case 3
        then have "i = Suc (length (?s c))" using ls [of c] by linarith
        then have "(0 # ?s c @ [int ?M - 1]) ! i = int ?M - 1"
          by (simp only: nth_Cons_Suc nth_append_length)
        then show ?thesis using 3 i tt(5) cN by simp
      qed
      then show "map (\<lambda>i. rows tt ! i ! c) [0..<?n] ! i = (0 # ?s c @ [int ?M - 1]) ! i"
        using i by simp
    qed
    ultimately show ?thesis by simp
  qed
  show ?thesis using res tt(2,3,4) col by blast
qed


lemma interp1_first:
  assumes "xp = 0 # rest" and "rest \<noteq> []" and "\<forall>a \<in> set rest. 0 < a"
  shows "interp1 xp fp 0 = fp ! 0"
proof -
  have "0 < last rest" using assms(2,3) by simp
  then have l: "\<not> last xp < 0" using assms(1,2) by simp
  have h: "\<not> 0 < hd xp" using assms(1) by simp
  obtain a rest' where rest: "rest = a # rest'" using assms(2) by (cases rest) auto
  then have "0 < a" using assms(3) by simp
  then have j: "interp_index 0 xp = 0" using assms(1) rest by (simp add: interp_index_def)
  show ?thesis using l h j assms(1) rest by (simp add: interp1_def)
qed

lemma interp1_last:
  assumes "xp \<noteq> []" and "\<forall>a \<in> set xp. a \<le> u" and "last xp = u"
  shows "interp1 xp fp u = fp ! (length xp - 1)"
proof -
  have l: "\<not> last xp < u" using assms(3) by simp
  have "hd xp \<le> u" using assms(1,2) by simp
  then have h: "\<not> u < hd xp" by simp
  have "\<forall>a \<in> set (tl xp). a \<le> u" using assms(1,2) by (cases xp) auto
  then have tw: "takeWhile (\<lambda>a. a \<le> u) (tl xp) = tl xp"
    by (rule takeWhile_eq_all_conv [THEN iffD2])
  have j: "interp_index u xp = length xp - 1"
    unfolding interp_index_def tw by simp
  show ?thesis using l h j by (simp add: interp1_def)
qed

lemma sample_interp_ok:
  assumes "wf_array X" and "c < shape1 X" and "3 \<le> shape0 X"
    and "column tt c = Inr (0 # s @ [int (shape0 X) - 1])"
    and "\<forall>t \<in> set s. 1 \<le> t \<and> t < int (shape0 X) - 1"
    and "wf_array A" and "shape0 A = shape0 X" and "shape1 A = shape1 X"
  shows "\<exists>A'. sample_interp X tt A c = Inr A' \<and> wf_array A' \<and> shape0 A' = shape0 X \<and>
           shape1 A' = shape1 X \<and>
           (\<forall>i < shape0 X. \<forall>j. j \<noteq> c \<longrightarrow> rows A' ! i ! j = rows A ! i ! j) \<and>
           rows A' ! 0 ! c = rows X ! 0 ! c \<and>
           rows A' ! (shape0 X - 1) ! c = rows X ! (shape0 X - 1) ! c"
proof -
  let ?M = "shape0 X"
  let ?ts = "0 # s @ [int ?M - 1]"
  let ?fp = "map (\<lambda>t. rows X ! nat (if t < 0 then t + int ?M else t) ! c) ?ts"
  let ?xp = "map real_of_int ?ts"
  let ?v = "map (interp1 ?xp ?fp) (x_range ?M)"
  have M: "0 < ?M" "1 < ?M" using assms(3) by simp_all
  have rng: "list_all (\<lambda>t. - int ?M \<le> t \<and> t < int ?M) ?ts"
    using assms(3,5) by (auto simp: list_all_iff)
  have tr: "take_rows X ?ts c = Inr ?fp"
    using assms(2) rng by (simp only: take_rows_def) simp
  have ni: "np_interp (x_range ?M) ?xp ?fp = Inr ?v"
    by (simp add: np_interp_def)
  have lv: "length ?v = shape0 A" using assms(7) by (simp add: x_range_def)
  have cA: "c < shape1 A" using assms(2,8) by simp
  from set_column_ok [OF assms(6) cA lv] obtain A' where A':
    "set_column A c ?v = Inr A'" "wf_array A'" "shape0 A' = shape0 A" "shape1 A' = shape1 A"
    "\<forall>i < shape0 A. rows A' ! i = (rows A ! i)[c := ?v ! i]"
    by blast
  have si: "sample_interp X tt A c = Inr A'"
    using assms(4) tr ni A'(1) by (simp add: sample_interp_def)
  have lenA: "length (rows A ! i) = shape1 X" if "i < ?M" for i
    using wf_arrayD(2) [OF assms(6)] that assms(7,8) by simp
  have entry: "rows A' ! i ! c = ?v ! i" if "i < ?M" for i
    using A'(5) that assms(7) lenA [OF that] assms(2) by simp
  have other: "rows A' ! i ! j = rows A ! i ! j" if "i < ?M" "j \<noteq> c" for i j
    using A'(5) that assms(7) by simp
  have first: "?v ! 0 = rows X ! 0 ! c"
  proof -
    have "?v ! 0 = interp1 ?xp ?fp 0" using M(1) by (simp add: x_range_def del: list.map)
    also have "\<dots> = ?fp ! 0"
    proof (rule interp1_first)
      show "?xp = 0 # map real_of_int (s @ [int ?M - 1])" by simp
      show "map real_of_int (s @ [int ?M - 1]) \<noteq> []" by simp
      show "\<forall>a \<in> set (map real_of_int (s @ [int ?M - 1])). 0 < a"
        using assms(3,5) by auto
    qed
    also have "\<dots> = rows X ! 0 ! c" by simp
    finally show ?thesis .
  qed
  have lastv: "?v ! (?M - 1) = rows X ! (?M - 1) ! c"
  proof -
    have "?v ! (?M - 1) = interp1 ?xp ?fp (real (?M - 1))"
      using M(1) by (simp add: x_range_def del: list.map)
    also have "\<dots> = ?fp ! (length ?xp - 1)"
    proof (rule interp1_last)
      show "?xp \<noteq> []" by simp
      show "\<forall>a \<in> set ?xp. a \<le> real (?M - 1)"
        using assms(3,5) by auto
      show "last ?xp = real (?M - 1)" using M(1) by (simp add: of_nat_diff)
    qed
    also have "?fp ! (length ?xp - 1) = last ?fp"
      by (simp add: last_conv_nth del: list.map)
    also have "\<dots> = rows X ! (?M - 1) ! c"
      using M(1) by (simp add: last_map nat_diff_distrib')
    finally show ?thesis .
  qed
  have "rows A' ! 0 ! c = rows X ! 0 ! c" using entry [of 0] M(1) first by simp
  moreover have "rows A' ! (?M - 1) ! c = rows X ! (?M - 1) ! c"
    using entry [of "?M - 1"] M(1) lastv by simp
  ultimately show ?thesis using si A'(2,3,4) assms(7,8) other by auto
qed


lemma rand_sampling_ok:
  assumes "wf_array X" and "3 \<le> shape1 X" and "3 \<le> shape0 X" and "2 \<le> nSample"
    and "\<forall>c < 3. in_range 1 (int (shape0 X) - 1) (nSample - 2) (d c)"
  shows "\<exists>Y. rand_sampling X nSample d = Inr Y \<and> wf_array Y \<and> shape0 Y = shape0 X \<and>
           shape1 Y = shape1 X \<and>
           (\<forall>c < 3. rows Y ! 0 ! c = rows X ! 0 ! c \<and>
                    rows Y ! (shape0 X - 1) ! c = rows X ! (shape0 X - 1) ! c) \<and>
           (\<forall>i < shape0 X. \<forall>j. 3 \<le> j \<and> j < shape1 X \<longrightarrow> rows Y ! i ! j = 0)"
proof -
  let ?M = "shape0 X" and ?N = "shape1 X"
  let ?s = "\<lambda>c. sort (map (d c) [0..<nat (nSample - 2)])"
  from rand_sample_timesteps_ok [OF assms(2,3,4), of d] obtain tt where
    tt: "rand_sample_timesteps X nSample d = Inr tt"
    and col: "\<forall>c < 3. column tt c = Inr (0 # ?s c @ [int ?M - 1])"
    by blast
  have rng: "\<forall>t \<in> set (?s c). 1 \<le> t \<and> t < int ?M - 1" if "c < 3" for c
    using assms(5) that by (auto simp: in_range_def list_all_iff)
  have M: "0 < ?M" using assms(3) by simp
  let ?A0 = "np_zeros ?M ?N :: real ndarray"
  have c0: "0 < ?N" and c1: "1 < ?N" and c2: "2 < ?N" using assms(2) by simp_all
  have col0: "column tt 0 = Inr (0 # ?s 0 @ [int ?M - 1])"
    and col1: "column tt 1 = Inr (0 # ?s 1 @ [int ?M - 1])"
    and col2: "column tt 2 = Inr (0 # ?s 2 @ [int ?M - 1])"
    using col by simp_all
  from sample_interp_ok [OF assms(1) c0 assms(3) col0 rng, of ?A0] obtain A1 where
    A1: "sample_interp X tt ?A0 0 = Inr A1" "wf_array A1" "shape0 A1 = ?M" "shape1 A1 = ?N"
      "\<forall>i < ?M. \<forall>j. j \<noteq> 0 \<longrightarrow> rows A1 ! i ! j = rows ?A0 ! i ! j"
      "rows A1 ! 0 ! 0 = rows X ! 0 ! 0" "rows A1 ! (?M - 1) ! 0 = rows X ! (?M - 1) ! 0"
    by auto
  from sample_interp_ok [OF assms(1) c1 assms(3) col1 rng A1(2,3,4)] obtain A2 where
    A2: "sample_interp X tt A1 1 = Inr A2" "wf_array A2" "shape0 A2 = ?M" "shape1 A2 = ?N"
      "\<forall>i < ?M. \<forall>j. j \<noteq> 1 \<longrightarrow> rows A2 ! i ! j = rows A1 ! i ! j"
      "rows A2 ! 0 ! 1 = rows X ! 0 ! 1" "rows A2 ! (?M - 1) ! 1 = rows X ! (?M - 1) ! 1"
    by auto
  from sample_interp_ok [OF assms(1) c2 assms(3) col2 rng A2(2,3,4)] obtain A3 where
    A3: "sample_interp X tt A2 2 = Inr A3" "wf_array A3" "shape0 A3 = ?M" "shape1 A3 = ?N"
      "\<forall>i < ?M. \<forall>j. j \<noteq> 2 \<longrightarrow> rows A3 ! i ! j = rows A2 ! i ! j"
      "rows A3 ! 0 ! 2 = rows X ! 0 ! 2" "rows A3 ! (?M - 1) ! 2 = rows X ! (?M - 1) ! 2"
    by auto
  have res: "rand_sampling X nSample d = Inr A3"
    using tt A1(1) A2(1) A3(1) by (simp add: rand_sampling_def)
  have b: "rows A3 ! 0 ! c = rows X ! 0 ! c \<and> rows A3 ! (?M - 1) ! c = rows X ! (?M - 1) ! c"
    if "c < 3" for c
  proof -
    have "c = 0 \<or> c = 1 \<or> c = 2" using that by auto
    then show ?thesis using M A1(6,7) A2(5,6,7) A3(5,6,7) by auto
  qed
  have z: "rows A3 ! i ! j = 0" if "i < ?M" "3 \<le> j" "j < ?N" for i j
  proof -
    have "rows A3 ! i ! j = rows ?A0 ! i ! j" using that A1(5) A2(5) A3(5) by simp
    then show ?thesis using that by (simp add: rows_np_zeros_nth)
  qed
  show ?thesis using res A3(2,3,4) b z by blast
qed

text \<open>
  Claim C10. For a well-formed \<open>M\<times>3\<close> matrix with \<open>M \<ge> 3\<close>, \<open>nSample \<ge> 2\<close> and sample
  indices drawn from \<open>[1, M-1)\<close>, \<open>rand_sampling\<close> returns a matrix whose first row is the
  first row of \<open>X\<close> and whose last row is the last row of \<open>X\<close>: every channel's index
  sequence starts at 0 and ends at \<open>M-1\<close>, and the interpolation reproduces the samples
  at these two grid points.
\<close>

theorem rand_sampling_keeps_boundary:
  assumes "wf_array X" and "shape1 X = 3" and "3 \<le> shape0 X" and "2 \<le> nSample"
    and "in_range 1 (int (shape0 X) - 1) (nSample - 2) (d 0)"
    and "in_range 1 (int (shape0 X) - 1) (nSample - 2) (d 1)"
    and "in_range 1 (int (shape0 X) - 1) (nSample - 2) (d 2)"
  shows "\<exists>Y. rand_sampling X nSample d = Inr Y \<and>
           rows Y ! 0 = rows X ! 0 \<and> rows Y ! (shape0 X - 1) = rows X ! (shape0 X - 1)"
proof -
  let ?M = "shape0 X"
  have N: "3 \<le> shape1 X" using assms(2) by simp
  have rng: "\<forall>c < 3. in_range 1 (int ?M - 1) (nSample - 2) (d c)"
  proof (intro allI impI)
    fix c :: nat assume "c < 3"
    then have "c = 0 \<or> c = 1 \<or> c = 2" by auto
    then show "in_range 1 (int ?M - 1) (nSample - 2) (d c)" using assms(5,6,7) by auto
  qed
  from rand_sampling_ok [OF assms(1) N assms(3,4) rng] obtain Y where
    Y: "rand_sampling X nSample d = Inr Y" "wf_array Y" "shape0 Y = ?M" "shape1 Y = shape1 X"
      "\<forall>c < 3. rows Y ! 0 ! c = rows X ! 0 ! c \<and> rows Y ! (?M - 1) ! c = rows X ! (?M - 1) ! c"
    by blast
  have same: "rows Y ! i = rows X ! i"
    if i: "i < ?M" and e: "\<forall>c < 3. rows Y ! i ! c = rows X ! i ! c" for i
  proof (rule nth_equalityI)
    show "length (rows Y ! i) = length (rows X ! i)"
      using wf_arrayD(2) [OF Y(2)] wf_arrayD(2) [OF assms(1)] i Y(3,4) by simp
    fix c assume "c < length (rows Y ! i)"
    then have "c < 3" using wf_arrayD(2) [OF Y(2)] i Y(3,4) assms(2) by simp
    then show "rows Y ! i ! c = rows X ! i ! c" using e by simp
  qed
  have "rows Y ! 0 = rows X ! 0" using same [of 0] Y(5) assms(3) by simp
  moreover have "rows Y ! (?M - 1) = rows X ! (?M - 1)"
    using same [of "?M - 1"] Y(5) assms(3) by simp
  ultimately show ?thesis using Y(1) by blast
qed


theorem rand_sampling_keeps_boundary_witness:
  "wf_array \<lparr>shape0 = 4, shape1 = 3, rows = [[1, 2, 3], [4, 5, 6], [7, 8, 9], [10, 11, 12 :: real]]\<rparr> \<and>
   in_range 1 (int 4 - 1) (3 - 2) (\<lambda>i. 2) \<and>
   (\<exists>Y. rand_sampling \<lparr>shape0 = 4, shape1 = 3, rows = [[1, 2, 3], [4, 5, 6], [7, 8, 9], [10, 11, 12]]\<rparr>
           3 (\<lambda>c i. 2) = Inr Y \<and>
        rows Y ! 0 = [1, 2, 3] \<and> rows Y ! 3 = [10, 11, 12])"
  using rand_sampling_keeps_boundary
    [of "\<lparr>shape0 = 4, shape1 = 3, rows = [[1, 2, 3], [4, 5, 6], [7, 8, 9], [10, 11, 12]]\<rparr>"
      3 "\<lambda>c i. 2"]
  by (simp add: wf_array_def in_range_def)

section \<open>Rotation\<close>

lemma rodrigues_isometry:
  fixes x y z c s p q r :: real
  assumes "x * x + y * y + z * z = 1" and "c * c + s * s = 1"
  shows "(p * (x * (x * (1 - c)) + c) + q * (x * (y * (1 - c)) + z * s) + r * (z * (x * (1 - c)) - y * s))\<^sup>2
       + (p * (x * (y * (1 - c)) - z * s) + q * (y * (y * (1 - c)) + c) + r * (y * (z * (1 - c)) + x * s))\<^sup>2
       + (p * (z * (x * (1 - c)) + y * s) + q * (y * (z * (1 - c)) - x * s) + r * (z * (z * (1 - c)) + c))\<^sup>2
       = p\<^sup>2 + q\<^sup>2 + r\<^sup>2"
  using assms by algebra


lemma normalised_unit:
  fixes n :: real
  assumes "n * n = a0 * a0 + a1 * a1 + a2 * a2" and "n \<noteq> 0"
  shows "(a0 / n) * (a0 / n) + (a1 / n) * (a1 / n) + (a2 / n) * (a2 / n) = 1"
proof -
  have "(a0 / n) * (a0 / n) + (a1 / n) * (a1 / n) + (a2 / n) * (a2 / n)
        = (a0 * a0 + a1 * a1 + a2 * a2) / (n * n)"
    using assms(2) by (simp add: field_simps)
  also have "\<dots> = (n * n) / (n * n)" by (simp only: assms(1))
  also have "\<dots> = 1" using assms(2) by simp
  finally show ?thesis .
qed

lemma axangle2mat_ok:
  assumes "a0 * a0 + a1 * a1 + a2 * a2 \<noteq> 0"
  shows "\<exists>x y z c s. x * x + y * y + z * z = 1 \<and> c * c + s * s = 1 \<and>
           axangle2mat [a0, a1, a2] angle =
             Inr \<lparr>shape0 = 3, shape1 = 3,
                  rows = [[x * (x * (1 - c)) + c, x * (y * (1 - c)) - z * s, z * (x * (1 - c)) + y * s],
                          [x * (y * (1 - c)) + z * s, y * (y * (1 - c)) + c, y * (z * (1 - c)) - x * s],
                          [z * (x * (1 - c)) - y * s, y * (z * (1 - c)) + x * s, z * (z * (1 - c)) + c]]\<rparr>"
proof -
  let ?n = "sqrt (a0 * a0 + a1 * a1 + a2 * a2)"
  have pos: "0 \<le> a0 * a0 + a1 * a1 + a2 * a2" by simp
  have n0: "?n \<noteq> 0" using assms by simp
  have nn: "?n * ?n = a0 * a0 + a1 * a1 + a2 * a2" using pos by simp
  have unit: "(a0 / ?n) * (a0 / ?n) + (a1 / ?n) * (a1 / ?n) + (a2 / ?n) * (a2 / ?n) = 1"
    using nn n0 by (rule normalised_unit)
  have cs: "cos angle * cos angle + sin angle * sin angle = 1"
    using sin_cos_squared_add2 [of angle] by (simp add: power2_eq_square)
  have "axangle2mat [a0, a1, a2] angle =
      Inr \<lparr>shape0 = 3, shape1 = 3,
           rows = [[(a0 / ?n) * ((a0 / ?n) * (1 - cos angle)) + cos angle,
                    (a0 / ?n) * ((a1 / ?n) * (1 - cos angle)) - (a2 / ?n) * sin angle,
                    (a2 / ?n) * ((a0 / ?n) * (1 - cos angle)) + (a1 / ?n) * sin angle],
                   [(a0 / ?n) * ((a1 / ?n) * (1 - cos angle)) + (a2 / ?n) * sin angle,
                    (a1 / ?n) * ((a1 / ?n) * (1 - cos angle)) + cos angle,
                    (a1 / ?n) * ((a2 / ?n) * (1 - cos angle)) - (a0 / ?n) * sin angle],
                   [(a2 / ?n) * ((a0 / ?n) * (1 - cos angle)) - (a1 / ?n) * sin angle,
                    (a1 / ?n) * ((a2 / ?n) * (1 - cos angle)) + (a0 / ?n) * sin angle,
                    (a2 / ?n) * ((a2 / ?n) * (1 - cos angle)) + cos angle]]\<rparr>"
    using n0 by (simp only: axangle2mat_def list.case Let_def if_False)
  with unit cs show ?thesis by blast
qed


lemma sum3_squares_zero:
  fixes a b c :: real
  assumes "a * a + b * b + c * c = 0"
  shows "a = 0 \<and> b = 0 \<and> c = 0"
proof -
  have "0 \<le> a * a + b * b" and "0 \<le> c * c" by simp_all
  with assms have "a * a + b * b = 0 \<and> c * c = 0" by (simp add: add_nonneg_eq_0_iff)
  then show ?thesis by (simp add: sum_squares_eq_zero_iff)
qed

lemma upt_3: "[0..<3] = [0, 1, 2]"
  by (simp add: upt_rec)

lemma list3:
  assumes "length r = 3"
  shows "r = [r ! 0, r ! 1, r ! 2]"
proof (rule nth_equalityI)
  show "length r = length [r ! 0, r ! 1, r ! 2]" using assms by simp
  fix i assume "i < length r"
  then have "i = 0 \<or> i = 1 \<or> i = 2" using assms by auto
  then show "r ! i = [r ! 0, r ! 1, r ! 2] ! i" by auto
qed

text \<open>
  Claim C5. For a well-formed \<open>M\<times>3\<close> matrix and a drawn axis that is not the zero vector,
  \<open>rotation\<close> returns a matrix of the same shape in which every row has the Euclidean
  norm of the corresponding row of \<open>X\<close> (exactly, in real arithmetic): one rotation
  matrix multiplies every row.
\<close>

theorem rotation_preserves_row_norms:
  assumes "wf_array X" and "shape1 X = 3"
    and "random_uniform (- 1) 1 (u 0) \<noteq> 0 \<or> random_uniform (- 1) 1 (u 1) \<noteq> 0 \<or>
         random_uniform (- 1) 1 (u 2) \<noteq> 0"
  shows "\<exists>Y. rotation X u ua = Inr Y \<and> shape0 Y = shape0 X \<and> shape1 Y = shape1 X \<and>
           (\<forall>i < shape0 X. sqrt (\<Sum>v\<leftarrow>rows Y ! i. v\<^sup>2) = sqrt (\<Sum>v\<leftarrow>rows X ! i. v\<^sup>2))"
proof -
  let ?a = "\<lambda>j. random_uniform (- 1) 1 (u j)"
  let ?angle = "random_uniform (- pi) pi ua"
  have nz: "?a 0 * ?a 0 + ?a 1 * ?a 1 + ?a 2 * ?a 2 \<noteq> 0"
    using assms(3) sum3_squares_zero [of "?a 0" "?a 1" "?a 2"] by blast
  from axangle2mat_ok [OF nz, of ?angle] obtain x y z c s where
    unit: "x * x + y * y + z * z = 1" and cs: "c * c + s * s = 1"
    and R: "axangle2mat [?a 0, ?a 1, ?a 2] ?angle =
             Inr \<lparr>shape0 = 3, shape1 = 3,
                  rows = [[x * (x * (1 - c)) + c, x * (y * (1 - c)) - z * s, z * (x * (1 - c)) + y * s],
                          [x * (y * (1 - c)) + z * s, y * (y * (1 - c)) + c, y * (z * (1 - c)) - x * s],
                          [z * (x * (1 - c)) - y * s, y * (z * (1 - c)) + x * s, z * (z * (1 - c)) + c]]\<rparr>"
    by blast
  let ?R = "\<lparr>shape0 = 3, shape1 = 3,
                  rows = [[x * (x * (1 - c)) + c, x * (y * (1 - c)) - z * s, z * (x * (1 - c)) + y * s],
                          [x * (y * (1 - c)) + z * s, y * (y * (1 - c)) + c, y * (z * (1 - c)) - x * s],
                          [z * (x * (1 - c)) - y * s, y * (z * (1 - c)) + x * s, z * (z * (1 - c)) + c]]\<rparr>"
  let ?Y = "mk_array (shape0 X) 3
              (\<lambda>i j. sum_list (map (\<lambda>l. rows X ! i ! l * rows ?R ! l ! j) [0..<3]))"
  have rot: "rotation X u ua = Inr ?Y"
    using R assms(2) by (simp add: rotation_def Let_def upt_3 np_matmul_def)
  have norm: "sqrt (\<Sum>v\<leftarrow>rows ?Y ! i. v\<^sup>2) = sqrt (\<Sum>v\<leftarrow>rows X ! i. v\<^sup>2)"
    if i: "i < shape0 X" for i
  proof -
    have "length (rows X ! i) = 3" using wf_arrayD(2) [OF assms(1) i] assms(2) by simp
    then have Xi: "rows X ! i = [rows X ! i ! 0, rows X ! i ! 1, rows X ! i ! 2]" by (rule list3)
    let ?p = "rows X ! i ! 0" and ?q = "rows X ! i ! 1" and ?r = "rows X ! i ! 2"
    have Yi: "rows ?Y ! i =
      [?p * (x * (x * (1 - c)) + c) + ?q * (x * (y * (1 - c)) + z * s) + ?r * (z * (x * (1 - c)) - y * s),
       ?p * (x * (y * (1 - c)) - z * s) + ?q * (y * (y * (1 - c)) + c) + ?r * (y * (z * (1 - c)) + x * s),
       ?p * (z * (x * (1 - c)) + y * s) + ?q * (y * (z * (1 - c)) - x * s) + ?r * (z * (z * (1 - c)) + c)]"
      using i by (simp add: mk_array_def upt_3)
    have "(\<Sum>v\<leftarrow>rows ?Y ! i. v\<^sup>2) = ?p\<^sup>2 + ?q\<^sup>2 + ?r\<^sup>2"
      unfolding Yi using rodrigues_isometry [OF unit cs, of ?p ?q ?r] by simp
    moreover have "(\<Sum>v\<leftarrow>rows X ! i. v\<^sup>2) = ?p\<^sup>2 + ?q\<^sup>2 + ?r\<^sup>2"
      by (subst Xi) simp
    ultimately show ?thesis by simp
  qed
  show ?thesis using rot norm assms(2) by (intro exI [of _ ?Y]) simp
qed


theorem rotation_preserves_row_norms_witness:
  "wf_array \<lparr>shape0 = 2, shape1 = 3, rows = [[1, 2, 3], [0, 1, 0 :: real]]\<rparr> \<and>
   random_uniform (- 1) 1 (3 / 4) \<noteq> 0 \<and>
   (\<exists>Y. rotation \<lparr>shape0 = 2, shape1 = 3, rows = [[1, 2, 3], [0, 1, 0]]\<rparr> (\<lambda>j. 3 / 4) (1 / 3) = Inr Y \<and>
        sqrt (\<Sum>v\<leftarrow>rows Y ! 0. v\<^sup>2) = sqrt 14 \<and> sqrt (\<Sum>v\<leftarrow>rows Y ! 1. v\<^sup>2) = 1)"
proof -
  let ?X = "\<lparr>shape0 = 2, shape1 = 3, rows = [[1, 2, 3], [0, 1, 0 :: real]]\<rparr>"
  have wf: "wf_array ?X" by (simp add: wf_array_def)
  have ax: "random_uniform (- 1) 1 (3 / 4) \<noteq> 0" by (simp add: random_uniform_def)
  from rotation_preserves_row_norms [of ?X "\<lambda>j. 3 / 4" "1 / 3"] wf ax
  obtain Y where Y: "rotation ?X (\<lambda>j. 3 / 4) (1 / 3) = Inr Y"
    "\<forall>i < 2. sqrt (\<Sum>v\<leftarrow>rows Y ! i. v\<^sup>2) = sqrt (\<Sum>v\<leftarrow>rows ?X ! i. v\<^sup>2)"
    by auto
  from Y(2) have "sqrt (\<Sum>v\<leftarrow>rows Y ! 0. v\<^sup>2) = sqrt 14" by simp
  moreover from Y(2) have "sqrt (\<Sum>v\<leftarrow>rows Y ! 1. v\<^sup>2) = 1" by simp
  ultimately show ?thesis using wf ax Y(1) by blast
qed

section \<open>Random curves\<close>

lemma arange_knots:
  assumes "0 \<le> knot" and "nat knot + 2 \<le> m"
  shows "arange_step m ((real m - 1) / real_of_int (knot + 1)) =
           Inr (map (\<lambda>i. real i * ((real m - 1) / real_of_int (knot + 1))) [0..<nat knot + 2])"
proof -
  let ?k = "real_of_int (knot + 1)"
  let ?step = "(real m - 1) / ?k"
  have k: "0 < ?k" using assms(1) by simp
  have m: "0 < real m - 1" "?k \<le> real m - 1" using assms by (simp_all add: nat_le_iff) 
  have step: "0 < ?step" using k m by simp
  have q: "real m / ?step = real m * ?k / (real m - 1)" by simp
  have lo: "?k < real m * ?k / (real m - 1)"
    using k m by (simp add: field_simps)
  have hi: "real m * ?k / (real m - 1) \<le> ?k + 1"
    using k m by (simp add: field_simps)
  have "\<lceil>real m / ?step\<rceil> = knot + 2"
    unfolding q using lo hi by (intro ceiling_unique) simp_all
  then have len: "nat \<lceil>real m / ?step\<rceil> = nat knot + 2" using assms(1) by simp
  have ne: "?step \<noteq> 0" using step by (metis less_irrefl)
  show ?thesis by (simp only: arange_step_def ne if_False len)
qed


lemma knots_increasing:
  fixes step :: real
  assumes "0 < step"
  shows "sorted_wrt (<) (map (\<lambda>i. real i * step) [0..<n])"
  using assms by (simp add: sorted_wrt_iff_nth_less)

lemma column_mk_array:
  assumes "c < n"
  shows "column (mk_array m n f) c = Inr (map (\<lambda>i. f i c) [0..<m])"
  using assms by (simp add: column_def mk_array_def)

lemma column_out_of_range:
  assumes "shape1 A \<le> c"
  shows "column A c = Inl IndexError"
  using assms by (simp add: column_def)

lemma spline_channel_ok:
  fixes step :: real
  assumes "0 < step" and "c < n" and "2 \<le> K"
  shows "spline_channel fit (mk_array K n (\<lambda>i j. map (\<lambda>i. real i * step) [0..<K] ! i))
           (mk_array K n f) c
         = Inr (fit (map (\<lambda>i. real i * step) [0..<K]) (map (\<lambda>i. f i c) [0..<K]))"
proof -
  let ?knots = "map (\<lambda>i. real i * step) [0..<K]"
  have "map (\<lambda>i. ?knots ! i) [0..<length ?knots] = ?knots" by (rule map_nth)
  then have "map (\<lambda>i. ?knots ! i) [0..<K] = ?knots" by (simp only: length_map length_upt diff_zero)
  then have cx: "column (mk_array K n (\<lambda>i j. ?knots ! i)) c = Inr ?knots"
    using assms(2) by (simp only: column_mk_array)
  have cy: "column (mk_array K n f) c = Inr (map (\<lambda>i. f i c) [0..<K])"
    using assms(2) by (rule column_mk_array)
  have inc: "sorted_wrt (<) ?knots" using assms(1) by (rule knots_increasing)
  have cs: "CubicSpline fit ?knots (map (\<lambda>i. f i c) [0..<K])
            = Inr (fit ?knots (map (\<lambda>i. f i c) [0..<K]))"
    using inc assms(3) by (simp add: CubicSpline_def)
  show ?thesis by (simp only: spline_channel_def cx cy cs sum.case)
qed

lemma spline_channel_index_error:
  assumes "n \<le> c"
  shows "spline_channel fit (mk_array m n g) yy c = Inl IndexError"
  using assms by (simp add: spline_channel_def column_out_of_range)


lemma generate_random_curves_unfold:
  assumes "0 \<le> knot" and "nat knot + 2 \<le> shape0 X" and "0 \<le> sigma"
  shows "generate_random_curves fit X sigma knot z =
     (let K = nat knot + 2;
          knots = map (\<lambda>i. real i * ((real (shape0 X) - 1) / real_of_int (knot + 1))) [0..<K];
          xx = mk_array K (shape1 X) (\<lambda>i j. knots ! i);
          yy = mk_array K (shape1 X) (\<lambda>i j. 1 + sigma * z i j)
      in case spline_channel fit xx yy 0 of
           Inl e \<Rightarrow> Inl e
         | Inr cs_x \<Rightarrow>
             (case spline_channel fit xx yy 1 of
                Inl e \<Rightarrow> Inl e
              | Inr cs_y \<Rightarrow>
                  (case spline_channel fit xx yy 2 of
                     Inl e \<Rightarrow> Inl e
                   | Inr cs_z \<Rightarrow>
                       Inr (mk_array (shape0 X) 3 (\<lambda>i j. ([cs_x, cs_y, cs_z] ! j) (real i))))))"
proof -
  have k1: "knot + 1 \<noteq> 0" using assms(1) by simp
  have rn: "random_normal 1 sigma (knot + 2) (shape1 X) z
            = Inr (mk_array (nat knot + 2) (shape1 X) (\<lambda>i j. 1 + sigma * z i j))"
    using assms(1,3) by (simp add: random_normal_def nat_add_distrib)
  show ?thesis
    by (simp only: generate_random_curves_def k1 if_False arange_knots [OF assms(1,2)]
        sum.case rn Let_def length_map length_upt diff_zero)
qed

lemma generate_random_curves_ok:
  assumes "0 \<le> knot" and "nat knot + 2 \<le> shape0 X" and "0 \<le> sigma" and "3 \<le> shape1 X"
  shows "generate_random_curves fit X sigma knot z =
     Inr (mk_array (shape0 X) 3
           (\<lambda>i j. fit (map (\<lambda>i. real i * ((real (shape0 X) - 1) / real_of_int (knot + 1)))
                          [0..<nat knot + 2])
                        (map (\<lambda>i. 1 + sigma * z i j) [0..<nat knot + 2]) (real i)))"
proof -
  let ?step = "(real (shape0 X) - 1) / real_of_int (knot + 1)"
  have step: "0 < ?step" using assms(1,2) by simp
  have K: "2 \<le> nat knot + 2" by simp
  have c: "0 < shape1 X" "1 < shape1 X" "2 < shape1 X" using assms(4) by simp_all
  have "mk_array (shape0 X) 3
          (\<lambda>i j. ([fit (map (\<lambda>i. real i * ?step) [0..<nat knot + 2]) (map (\<lambda>i. 1 + sigma * z i 0) [0..<nat knot + 2]),
                    fit (map (\<lambda>i. real i * ?step) [0..<nat knot + 2]) (map (\<lambda>i. 1 + sigma * z i 1) [0..<nat knot + 2]),
                    fit (map (\<lambda>i. real i * ?step) [0..<nat knot + 2]) (map (\<lambda>i. 1 + sigma * z i 2) [0..<nat knot + 2])] ! j)
                   (real i))
        = mk_array (shape0 X) 3
           (\<lambda>i j. fit (map (\<lambda>i. real i * ?step) [0..<nat knot + 2])
                        (map (\<lambda>i. 1 + sigma * z i j) [0..<nat knot + 2]) (real i))"
  proof (rule mk_array_cong)
    fix i j :: nat assume "j < 3"
    then have "j = 0 \<or> j = 1 \<or> j = 2" by auto
    then show "([fit (map (\<lambda>i. real i * ?step) [0..<nat knot + 2]) (map (\<lambda>i. 1 + sigma * z i 0) [0..<nat knot + 2]),
                    fit (map (\<lambda>i. real i * ?step) [0..<nat knot + 2]) (map (\<lambda>i. 1 + sigma * z i 1) [0..<nat knot + 2]),
                    fit (map (\<lambda>i. real i * ?step) [0..<nat knot + 2]) (map (\<lambda>i. 1 + sigma * z i 2) [0..<nat knot + 2])] ! j)
                   (real i)
        = fit (map (\<lambda>i. real i * ?step) [0..<nat knot + 2])
                        (map (\<lambda>i. 1 + sigma * z i j) [0..<nat knot + 2]) (real i)"
      by auto
  qed
  then show ?thesis
    by (simp only: generate_random_curves_unfold [OF assms(1,2,3)] Let_def
        spline_channel_ok [OF step c(1) K] spline_channel_ok [OF step c(2) K]
        spline_channel_ok [OF step c(3) K] sum.case)
qed

lemma generate_random_curves_index_error:
  assumes "0 \<le> knot" and "nat knot + 2 \<le> shape0 X" and "0 \<le> sigma" and "shape1 X < 3"
  shows "generate_random_curves fit X sigma knot z = Inl IndexError"
proof -
  let ?step = "(real (shape0 X) - 1) / real_of_int (knot + 1)"
  let ?K = "nat knot + 2"
  let ?knots = "map (\<lambda>i. real i * ?step) [0..<?K]"
  let ?xx = "mk_array ?K (shape1 X) (\<lambda>i j. ?knots ! i)"
  let ?yy = "mk_array ?K (shape1 X) (\<lambda>i j. 1 + sigma * z i j)"
  have step: "0 < ?step" using assms(1,2) by simp
  have K: "2 \<le> ?K" by simp
  have ok: "spline_channel fit ?xx ?yy c = Inr (fit ?knots (map (\<lambda>i. 1 + sigma * z i c) [0..<?K]))"
    if "c < shape1 X" for c
    using step that K by (rule spline_channel_ok)
  have err: "spline_channel fit ?xx ?yy c = Inl IndexError" if "shape1 X \<le> c" for c
    using that by (rule spline_channel_index_error)
  consider "shape1 X = 0" | "shape1 X = 1" | "shape1 X = 2" using assms(4) by linarith
  then show ?thesis
  proof cases
    case 1
    then have e: "spline_channel fit ?xx ?yy 0 = Inl IndexError" by (intro err) simp
    show ?thesis
      by (simp only: generate_random_curves_unfold [OF assms(1,2,3)] Let_def e sum.case)
  next
    case 2
    then have o: "spline_channel fit ?xx ?yy 0 = Inr (fit ?knots (map (\<lambda>i. 1 + sigma * z i 0) [0..<?K]))"
      by (intro ok) simp
    from 2 have e: "spline_channel fit ?xx ?yy 1 = Inl IndexError" by (intro err) simp
    show ?thesis
      by (simp only: generate_random_curves_unfold [OF assms(1,2,3)] Let_def o e sum.case)
  next
    case 3
    then have o0: "spline_channel fit ?xx ?yy 0 = Inr (fit ?knots (map (\<lambda>i. 1 + sigma * z i 0) [0..<?K]))"
      by (intro ok) simp
    from 3 have o1: "spline_channel fit ?xx ?yy 1 = Inr (fit ?knots (map (\<lambda>i. 1 + sigma * z i 1) [0..<?K]))"
      by (intro ok) simp
    from 3 have e: "spline_channel fit ?xx ?yy 2 = Inl IndexError" by (intro err) simp
    show ?thesis
      by (simp only: generate_random_curves_unfold [OF assms(1,2,3)] Let_def o0 o1 e sum.case)
  qed
qed


lemma generate_random_curves_shape:
  assumes "generate_random_curves fit X sigma knot z = Inr C"
  shows "shape0 C = shape0 X \<and> shape1 C = 3"
proof -
  from assms have "\<exists>f. C = mk_array (shape0 X) 3 f"
    unfolding generate_random_curves_def Let_def
    by (simp split: if_splits sum.splits) blast
  then show ?thesis by auto
qed


text \<open>
  In a six-row window the six control points of the default \<open>knot = 4\<close> lie on the
  timesteps 0 to 5, so the curve is the matrix of the drawn control values.
\<close>

lemma six_row_curve:
  assumes "interpolating fit" and "shape0 X = 6" and "3 \<le> shape1 X" and "0 \<le> sigma"
  shows "generate_random_curves fit X sigma 4 z = Inr (mk_array 6 3 (\<lambda>i j. 1 + sigma * z i j))"
proof -
  let ?knots = "map (\<lambda>i. real i * ((real (shape0 X) - 1) / real_of_int (4 + 1))) [0..<nat 4 + 2]"
  have n: "nat 4 + 2 = (6::nat)" by simp
  have kn: "map (\<lambda>i. real i * ((real (shape0 X) - 1) / real_of_int (4 + 1))) [0..<6] = map real [0..<6]"
    unfolding assms(2) by (rule map_cong) simp_all
  have inc: "sorted_wrt (<) (map real [0..<6])"
    unfolding sorted_wrt_iff_nth_less by (simp del: upt_Suc)
  have e: "fit ?knots (map (\<lambda>i. 1 + sigma * z i j) [0..<nat 4 + 2]) (real i) = 1 + sigma * z i j"
    if i: "i < 6" for i j
  proof -
    let ?ys = "map (\<lambda>i. 1 + sigma * z i j) [0..<6]"
    have l: "length ?ys = length (map real [0..<6])" by (simp del: upt_Suc)
    have il: "i < length (map real [0..<6])" using i by (simp del: upt_Suc)
    from assms(1) l inc il have "fit (map real [0..<6]) ?ys (map real [0..<6] ! i) = ?ys ! i"
      unfolding interpolating_def by blast
    moreover have "map real [0..<6] ! i = real i" using i by (simp del: upt_Suc)
    moreover have "?ys ! i = 1 + sigma * z i j" using i by (simp del: upt_Suc)
    ultimately show ?thesis unfolding n kn by (simp only:)
  qed
  have "mk_array 6 3
          (\<lambda>i j. fit ?knots (map (\<lambda>i. 1 + sigma * z i j) [0..<nat 4 + 2]) (real i))
        = mk_array 6 3 (\<lambda>i j. 1 + sigma * z i j)"
    by (rule mk_array_cong) (rule e)
  moreover have "generate_random_curves fit X sigma 4 z =
      Inr (mk_array (shape0 X) 3
          (\<lambda>i j. fit ?knots (map (\<lambda>i. 1 + sigma * z i j) [0..<nat 4 + 2]) (real i)))"
    using assms(2,3,4) by (intro generate_random_curves_ok) simp_all
  ultimately show ?thesis unfolding assms(2) by (simp only:)
qed


text \<open>
  The piecewise-linear interpolant \<open>interp1\<close> passes through its sample points. It is
  the fit of the closed instances below; at the control points every interpolating
  fit, a cubic spline included, has the same values.
\<close>

lemma interp_index_at_sample:
  assumes "sorted_wrt (<) xp" and "i < length xp"
  shows "interp_index (xp ! i) xp = i"
proof -
  have less: "xp ! a < xp ! b" if "a < b" "b < length xp" for a b
    using assms(1) that by (simp add: sorted_wrt_iff_nth_less)
  have "takeWhile (\<lambda>a. a \<le> xp ! i) (tl xp) = take i (tl xp)"
  proof (rule takeWhile_eq_take_P_nth)
    fix k assume k: "k < i" "k < length (tl xp)"
    then have "tl xp ! k = xp ! Suc k" by (simp add: nth_tl)
    moreover have "xp ! Suc k \<le> xp ! i"
    proof (cases "Suc k = i")
      case True
      then show ?thesis by simp
    next
      case False
      then have "Suc k < i" using k(1) by simp
      then show ?thesis using less [of "Suc k" i] assms(2) by simp
    qed
    ultimately show "tl xp ! k \<le> xp ! i" by simp
  next
    assume k: "i < length (tl xp)"
    then have "tl xp ! i = xp ! Suc i" by (simp add: nth_tl)
    moreover have "xp ! i < xp ! Suc i" using less [of i "Suc i"] k by simp
    ultimately show "\<not> tl xp ! i \<le> xp ! i" by simp
  qed
  then show ?thesis using assms(2) by (simp add: interp_index_def)
qed

lemma interpolating_interp1: "interpolating interp1"
  unfolding interpolating_def
proof (intro allI impI)
  fix x y :: "real list" and i
  assume a: "length y = length x \<and> sorted_wrt (<) x \<and> i < length x"
  then have inc: "sorted_wrt (<) x" and i: "i < length x" by simp_all
  have less: "x ! a < x ! b" if "a < b" "b < length x" for a b
    using inc that by (simp add: sorted_wrt_iff_nth_less)
  have ne: "x \<noteq> []" using i by auto
  have "x ! i \<le> x ! (length x - 1)"
  proof (cases "i = length x - 1")
    case True
    then show ?thesis by simp
  next
    case False
    then have "i < length x - 1" "length x - 1 < length x" using i by simp_all
    then have "x ! i < x ! (length x - 1)" by (rule less)
    then show ?thesis by simp
  qed
  then have l: "\<not> last x < x ! i" using ne by (simp add: last_conv_nth)
  have "x ! 0 \<le> x ! i"
  proof (cases "i = 0")
    case True
    then show ?thesis by simp
  next
    case False
    then have "0 < i" by simp
    then have "x ! 0 < x ! i" using i by (rule less)
    then show ?thesis by simp
  qed
  then have h: "\<not> x ! i < hd x" using ne by (simp add: hd_conv_nth)
  have j: "interp_index (x ! i) x = i" using inc i by (rule interp_index_at_sample)
  show "interp1 x y (x ! i) = y ! i"
    using l h j by (simp add: interp1_def)
qed

section \<open>The warped time axis\<close>

lemma cumsum_step:
  assumes "Suc i < shape0 tt" and "j < shape1 tt"
  shows "rows (np_cumsum0 tt) ! Suc i ! j = rows (np_cumsum0 tt) ! i ! j + rows tt ! Suc i ! j"
  using assms by (simp add: np_cumsum0_def)

text \<open>
  Claim C3, as the code has it. The warped time axis is the running sum
  \<open>np.cumsum(tt, axis=0)\<close> of the random curve \<open>tt\<close>. For every curve the generator
  returns, the axis of channel \<open>j\<close> does not decrease from timestep \<open>i\<close> to \<open>i+1\<close> exactly
  when the curve's value at timestep \<open>i+1\<close> is non-negative: the axis is non-decreasing
  for the draws that keep the curve non-negative from the second timestep on, and it
  falls wherever the curve is negative.
\<close>

theorem warped_axis_step:
  assumes "generate_random_curves fit X sigma 4 z = Inr tt" and "Suc i < shape0 X" and "j < 3"
  shows "(rows (np_cumsum0 tt) ! i ! j \<le> rows (np_cumsum0 tt) ! Suc i ! j) = (0 \<le> rows tt ! Suc i ! j)"
proof -
  from generate_random_curves_shape [OF assms(1)] have "shape0 tt = shape0 X" "shape1 tt = 3"
    by simp_all
  with assms(2,3) have "Suc i < shape0 tt" "j < shape1 tt" by simp_all
  then have "rows (np_cumsum0 tt) ! Suc i ! j = rows (np_cumsum0 tt) ! i ! j + rows tt ! Suc i ! j"
    by (rule cumsum_step)
  then show ?thesis by simp
qed

theorem warped_axis_step_witness:
  "generate_random_curves interp1 (np_zeros 6 3) (1 / 5) 4 (\<lambda>i j. real i)
     = Inr (mk_array 6 3 (\<lambda>i j. 1 + 1 / 5 * real i)) \<and>
   Suc 1 < shape0 (np_zeros 6 3 :: real ndarray) \<and> (0 :: nat) < 3 \<and>
   rows (np_cumsum0 (mk_array 6 3 (\<lambda>i j. 1 + 1 / 5 * real i))) ! 1 ! 0
     \<le> rows (np_cumsum0 (mk_array 6 3 (\<lambda>i j. 1 + 1 / 5 * real i))) ! Suc 1 ! 0"
proof -
  have ev: "generate_random_curves interp1 (np_zeros 6 3) (1 / 5) 4 (\<lambda>i j. real i)
     = Inr (mk_array 6 3 (\<lambda>i j. 1 + 1 / 5 * real i))"
    by (rule six_row_curve [OF interpolating_interp1]) simp_all
  have m: "Suc 1 < shape0 (np_zeros 6 3 :: real ndarray)" by simp
  have j: "(0 :: nat) < 3" by simp
  have "0 \<le> rows (mk_array 6 3 (\<lambda>i j. 1 + 1 / 5 * real i)) ! Suc 1 ! 0" by simp
  with warped_axis_step [OF ev m j] ev m j show ?thesis by simp
qed

text \<open>
  A six-row window has its six control points on the integer timesteps, so the curve is
  the drawn control values themselves (\<open>six_row_curve\<close>, for every interpolating fit).
  With \<open>sigma = 1\<close> and the third normal variate \<open>-3\<close> the curve is \<open>-2\<close> at timestep 2 and
  the cumulative axis falls from 2 to 0.
\<close>

theorem warped_axis_decreases:
  "generate_random_curves interp1 (np_zeros 6 3) 1 4 (\<lambda>i j. if i = 2 then - 3 else 0)
     = Inr \<lparr>shape0 = 6, shape1 = 3,
           rows = [[1, 1, 1], [1, 1, 1], [- 2, - 2, - 2], [1, 1, 1], [1, 1, 1], [1, 1, 1]]\<rparr> \<and>
   rows (np_cumsum0 \<lparr>shape0 = 6, shape1 = 3,
           rows = [[1, 1, 1], [1, 1, 1], [- 2, - 2, - 2], [1, 1, 1], [1, 1, 1], [1, 1, 1]]\<rparr>) ! 1 ! 0 = 2 \<and>
   rows (np_cumsum0 \<lparr>shape0 = 6, shape1 = 3,
           rows = [[1, 1, 1], [1, 1, 1], [- 2, - 2, - 2], [1, 1, 1], [1, 1, 1], [1, 1, 1]]\<rparr>) ! 2 ! 0 = 0"
proof -
  have "generate_random_curves interp1 (np_zeros 6 3) 1 4 (\<lambda>i j. if i = 2 then - 3 else 0)
     = Inr (mk_array 6 3 (\<lambda>i j. 1 + 1 * (if i = 2 then - 3 else 0)))"
    by (rule six_row_curve [OF interpolating_interp1]) simp_all
  moreover have "mk_array 6 3 (\<lambda>i j. 1 + 1 * (if i = 2 then - 3 else 0 :: real))
     = \<lparr>shape0 = 6, shape1 = 3,
           rows = [[1, 1, 1], [1, 1, 1], [- 2, - 2, - 2], [1, 1, 1], [1, 1, 1], [1, 1, 1]]\<rparr>"
    by (simp add: mk_array_def upt_rec)
  moreover have "rows (np_cumsum0 \<lparr>shape0 = 6, shape1 = 3,
           rows = [[1, 1, 1], [1, 1, 1], [- 2, - 2, - 2], [1, 1, 1], [1, 1, 1], [1, 1, 1]]\<rparr>) ! 1 ! 0 = 2"
    by (simp add: np_cumsum0_def)
  moreover have "rows (np_cumsum0 \<lparr>shape0 = 6, shape1 = 3,
           rows = [[1, 1, 1], [1, 1, 1], [- 2, - 2, - 2], [1, 1, 1], [1, 1, 1], [1, 1, 1]]\<rparr>) ! 2 ! 0 = 0"
    by (simp add: np_cumsum0_def upt_rec)
  ultimately show ?thesis by (simp only:)
qed

text \<open>
  Claim C6 at \<open>time_warp\<close>: on a \<open>6\<times>3\<close> window, which meets the shape precondition, the
  module as written raises \<open>NameError\<close> and returns no matrix of any shape.
\<close>

theorem time_warp_returns_no_matrix:
  "time_warp (module_globals interp1) (np_zeros 6 3) (1 / 5) (\<lambda>i j. 0) = Inl NameError"
  by (simp add: time_warp_def distort_timesteps_def module_globals_def)

section \<open>Inputs with other than three channels\<close>

lemma sample_channel_index_error:
  assumes "shape1 tt \<le> c" and "2 \<le> nSample" and "3 \<le> m"
  shows "sample_channel tt m nSample d c = Inl IndexError"
  using assms by (simp add: sample_channel_def randint_def assign_inner_column_def)

lemma rand_sample_timesteps_few_channels:
  assumes "shape1 X < 3" and "3 \<le> shape0 X" and "2 \<le> nSample"
  shows "rand_sample_timesteps X nSample d = Inl IndexError"
proof -
  let ?n = "nat nSample" and ?N = "shape1 X" and ?M = "shape0 X"
  let ?t0 = "np_zeros ?n ?N :: int ndarray"
  have n0: "\<not> nSample < 0" using assms(3) by simp
  have ok: "\<exists>tt'. sample_channel tt ?M nSample (d c) c = Inr tt' \<and> wf_array tt' \<and>
             shape0 tt' = ?n \<and> shape1 tt' = ?N"
    if "wf_array tt" "shape0 tt = ?n" "shape1 tt = ?N" "c < ?N" for tt c
    using sample_channel_ok [of tt c nSample ?M "d c"] that assms(2,3) by auto
  have err: "sample_channel tt ?M nSample (d c) c = Inl IndexError"
    if "shape1 tt = ?N" "?N \<le> c" for tt c
    using that assms(2,3) by (intro sample_channel_index_error) simp_all
  consider "?N = 0" | "?N = 1" | "?N = 2" using assms(1) by linarith
  then show ?thesis
  proof cases
    case 1
    then have "sample_channel ?t0 ?M nSample (d 0) 0 = Inl IndexError" by (intro err) simp_all
    then show ?thesis using n0 by (simp add: rand_sample_timesteps_def)
  next
    case 2
    then obtain t1 where t1: "sample_channel ?t0 ?M nSample (d 0) 0 = Inr t1"
      "wf_array t1" "shape0 t1 = ?n" "shape1 t1 = ?N"
      using ok [of ?t0 0] by auto
    from 2 t1(4) have "sample_channel t1 ?M nSample (d 1) 1 = Inl IndexError"
      by (intro err) simp_all
    then show ?thesis using n0 t1(1) by (simp add: rand_sample_timesteps_def)
  next
    case 3
    then obtain t1 where t1: "sample_channel ?t0 ?M nSample (d 0) 0 = Inr t1"
      "wf_array t1" "shape0 t1 = ?n" "shape1 t1 = ?N"
      using ok [of ?t0 0] by auto
    from 3 t1 obtain t2 where t2: "sample_channel t1 ?M nSample (d 1) 1 = Inr t2"
      "wf_array t2" "shape0 t2 = ?n" "shape1 t2 = ?N"
      using ok [of t1 1] by auto
    from 3 t2(4) have "sample_channel t2 ?M nSample (d 2) 2 = Inl IndexError"
      by (intro err) simp_all
    then show ?thesis using n0 t1(1) t2(1) by (simp add: rand_sample_timesteps_def)
  qed
qed

lemma rand_sampling_few_channels:
  assumes "shape1 X < 3" and "3 \<le> shape0 X" and "2 \<le> nSample"
  shows "rand_sampling X nSample d = Inl IndexError"
  using rand_sample_timesteps_few_channels [OF assms] by (simp add: rand_sampling_def)

lemma axangle2mat_wrong_length:
  assumes "length axis \<noteq> 3"
  shows "axangle2mat axis angle = Inl ValueError"
  using assms by (auto simp: axangle2mat_def split: list.splits)

lemma rotation_wrong_channels:
  assumes "shape1 X \<noteq> 3"
  shows "rotation X u ua = Inl ValueError"
proof -
  have "length (map (\<lambda>j. random_uniform (- 1) 1 (u j)) [0..<shape1 X]) \<noteq> 3"
    using assms by simp
  then have "axangle2mat (map (\<lambda>j. random_uniform (- 1) 1 (u j)) [0..<shape1 X])
               (random_uniform (- pi) pi ua) = Inl ValueError"
    by (rule axangle2mat_wrong_length)
  then show ?thesis by (simp add: rotation_def Let_def)
qed


text \<open>
  Claim C2, as the code has it. The module checks no shape and defines no
  \<open>InvalidShape\<close> error. With \<open>N \<noteq> 3\<close> channels: rotation raises \<open>ValueError\<close>; for
  \<open>N < 3\<close> random sampling (given \<open>M \<ge> 3\<close>, \<open>nSample \<ge> 2\<close>) and the curve generator (given
  \<open>M \<ge> 6\<close>, \<open>sigma \<ge> 0\<close>) raise \<open>IndexError\<close> at the first missing channel; for \<open>N > 3\<close>
  both compute a result from channels 0, 1 and 2 alone: random sampling an \<open>M\<times>N\<close>
  matrix whose further columns are zero, the curve generator an \<open>M\<times>3\<close> curve.
\<close>

theorem wrong_channel_count:
  assumes "shape1 X \<noteq> 3"
  shows "rotation X u ua = Inl ValueError \<and>
    (shape1 X < 3 \<longrightarrow>
       (3 \<le> shape0 X \<and> 2 \<le> nSample \<longrightarrow> rand_sampling X nSample d = Inl IndexError) \<and>
       (6 \<le> shape0 X \<and> 0 \<le> sigma \<longrightarrow> generate_random_curves fit X sigma 4 z = Inl IndexError)) \<and>
    (3 < shape1 X \<longrightarrow>
       (wf_array X \<and> 3 \<le> shape0 X \<and> 2 \<le> nSample \<and>
        (\<forall>c < 3. in_range 1 (int (shape0 X) - 1) (nSample - 2) (d c)) \<longrightarrow>
          (\<exists>Y. rand_sampling X nSample d = Inr Y \<and> shape0 Y = shape0 X \<and> shape1 Y = shape1 X \<and>
               (\<forall>i < shape0 X. \<forall>j. 3 \<le> j \<and> j < shape1 X \<longrightarrow> rows Y ! i ! j = 0))) \<and>
       (6 \<le> shape0 X \<and> 0 \<le> sigma \<longrightarrow>
          (\<exists>C. generate_random_curves fit X sigma 4 z = Inr C \<and> shape0 C = shape0 X \<and> shape1 C = 3)))"
proof (intro conjI impI)
  show "rotation X u ua = Inl ValueError" using assms by (rule rotation_wrong_channels)
next
  assume "shape1 X < 3" and "3 \<le> shape0 X \<and> 2 \<le> nSample"
  then show "rand_sampling X nSample d = Inl IndexError"
    by (intro rand_sampling_few_channels) simp_all
next
  assume "shape1 X < 3" and "6 \<le> shape0 X \<and> 0 \<le> sigma"
  then show "generate_random_curves fit X sigma 4 z = Inl IndexError"
    by (intro generate_random_curves_index_error) simp_all
next
  assume N: "3 < shape1 X"
    and h: "wf_array X \<and> 3 \<le> shape0 X \<and> 2 \<le> nSample \<and>
        (\<forall>c < 3. in_range 1 (int (shape0 X) - 1) (nSample - 2) (d c))"
  from N have N3: "3 \<le> shape1 X" by simp
  from h have wf: "wf_array X" and M: "3 \<le> shape0 X" and n: "2 \<le> nSample"
    and r: "\<forall>c < 3. in_range 1 (int (shape0 X) - 1) (nSample - 2) (d c)" by simp_all
  from rand_sampling_ok [OF wf N3 M n r]
  show "\<exists>Y. rand_sampling X nSample d = Inr Y \<and> shape0 Y = shape0 X \<and> shape1 Y = shape1 X \<and>
          (\<forall>i < shape0 X. \<forall>j. 3 \<le> j \<and> j < shape1 X \<longrightarrow> rows Y ! i ! j = 0)"
    by blast
next
  assume N: "3 < shape1 X" and h: "6 \<le> shape0 X \<and> 0 \<le> sigma"
  have "generate_random_curves fit X sigma 4 z =
     Inr (mk_array (shape0 X) 3
           (\<lambda>i j. fit (map (\<lambda>i. real i * ((real (shape0 X) - 1) / real_of_int (4 + 1)))
                          [0..<nat 4 + 2])
                        (map (\<lambda>i. 1 + sigma * z i j) [0..<nat 4 + 2]) (real i)))"
    using N h by (intro generate_random_curves_ok) simp_all
  then show "\<exists>C. generate_random_curves fit X sigma 4 z = Inr C \<and> shape0 C = shape0 X \<and> shape1 C = 3"
    by simp
qed

theorem wrong_channel_count_witness:
  "shape1 (np_zeros 6 2 :: real ndarray) \<noteq> 3 \<and>
   rotation (np_zeros 6 2) (\<lambda>j. 3 / 4) (1 / 3) = Inl ValueError \<and>
   rand_sampling (np_zeros 6 2) 3 (\<lambda>c i. 2) = Inl IndexError \<and>
   generate_random_curves interp1 (np_zeros 6 2) (1 / 5) 4 (\<lambda>i j. 0) = Inl IndexError \<and>
   shape1 (np_zeros 6 4 :: real ndarray) \<noteq> 3 \<and>
   rotation (np_zeros 6 4) (\<lambda>j. 3 / 4) (1 / 3) = Inl ValueError \<and>
   (\<exists>Y. rand_sampling (np_zeros 6 4) 3 (\<lambda>c i. 2) = Inr Y \<and> shape0 Y = 6 \<and> shape1 Y = 4) \<and>
   (\<exists>C. generate_random_curves interp1 (np_zeros 6 4) (1 / 5) 4 (\<lambda>i j. 0) = Inr C \<and>
        shape0 C = 6 \<and> shape1 C = 3)"
  using wrong_channel_count
      [of "np_zeros 6 2" "\<lambda>j. 3 / 4" "1 / 3" 3 "\<lambda>c i. 2" "1 / 5" interp1 "\<lambda>i j. 0"]
    wrong_channel_count
      [of "np_zeros 6 4" "\<lambda>j. 3 / 4" "1 / 3" 3 "\<lambda>c i. 2" "1 / 5" interp1 "\<lambda>i j. 0"]
  by (simp add: in_range_def) blast

text \<open>
  Four channels: random sampling raises nothing. It interpolates channels 0 to 2 and
  returns the fourth column as zeros.
\<close>

theorem rand_sampling_four_channels:
  "rand_sampling \<lparr>shape0 = 3, shape1 = 4, rows = [[1, 2, 3, 4], [5, 6, 7, 8], [9, 10, 11, 12]]\<rparr>
     3 (\<lambda>c i. 1)
   = Inr \<lparr>shape0 = 3, shape1 = 4, rows = [[1, 2, 3, 0], [5, 6, 7, 0], [9, 10, 11, 0]]\<rparr>"
  by (simp add: rand_sampling_def rand_sample_timesteps_def sample_channel_def randint_def
      assign_inner_column_def assign_last_row_def sample_interp_def column_def take_rows_def
      np_interp_def interp1_def interp_index_def set_column_def x_range_def np_zeros_def
      mk_array_def enumerate_eq_zip upt_rec Let_def)

section \<open>Shape of the returned matrix\<close>

lemma broadcast2_same_shape:
  assumes "shape0 B = shape0 A" and "shape1 B = shape1 A"
  shows "broadcast2 g A B = Inr (mk_array (shape0 A) (shape1 A) (\<lambda>i j. g (at2 A i j) (at2 B i j)))"
  using assms by (simp add: broadcast2_def)

text \<open>
  Whenever \<open>jitter\<close> returns, the result is a well-formed matrix of the input's shape.
\<close>

theorem jitter_shape:
  assumes "jitter X sigma z = Inr Y"
  shows "wf_array Y \<and> shape0 Y = shape0 X \<and> shape1 Y = shape1 X"
proof -
  from assms obtain noise where n: "random_normal 0 sigma (int (shape0 X)) (shape1 X) z = Inr noise"
    and Y: "broadcast2 (+) X noise = Inr Y"
    by (auto simp: jitter_def split: sum.splits)
  from n have "shape0 noise = shape0 X" "shape1 noise = shape1 X"
    by (auto simp: random_normal_def split: if_splits)
  from broadcast2_same_shape [OF this, of "(+)"] Y show ?thesis by auto
qed

text \<open>
  Whenever \<open>scaling\<close> returns, the result is a well-formed matrix of the input's shape.
\<close>

theorem scaling_shape:
  assumes "scaling X sigma z = Inr Y"
  shows "wf_array Y \<and> shape0 Y = shape0 X \<and> shape1 Y = shape1 X"
proof -
  from assms obtain sc noise where sc: "random_normal 1 sigma 1 (shape1 X) z = Inr sc"
    and mm: "np_matmul (np_ones (shape0 X) 1) sc = Inr noise"
    and Y: "broadcast2 (*) X noise = Inr Y"
    by (auto simp: scaling_def split: sum.splits)
  from sc have "shape1 sc = shape1 X" by (auto simp: random_normal_def split: if_splits)
  with mm have "shape0 noise = shape0 X" "shape1 noise = shape1 X"
    by (auto simp: np_matmul_def split: if_splits)
  from broadcast2_same_shape [OF this, of "(*)"] Y show ?thesis by auto
qed

text \<open>
  Whenever \<open>magnitude_warp\<close> returns on a three-channel input, the result is a
  well-formed matrix of the input's shape.
\<close>

theorem magnitude_warp_shape:
  assumes "magnitude_warp fit X sigma z = Inr Y" and "shape1 X = 3"
  shows "wf_array Y \<and> shape0 Y = shape0 X \<and> shape1 Y = shape1 X"
proof -
  from assms(1) obtain curve where c: "generate_random_curves fit X sigma 4 z = Inr curve"
    and Y: "broadcast2 (*) X curve = Inr Y"
    by (auto simp: magnitude_warp_def split: sum.splits)
  from generate_random_curves_shape [OF c] assms(2)
  have "shape0 curve = shape0 X" "shape1 curve = shape1 X" by simp_all
  from broadcast2_same_shape [OF this, of "(*)"] Y show ?thesis by auto
qed

lemma axangle2mat_shape:
  assumes "axangle2mat axis angle = Inr R"
  shows "shape0 R = 3 \<and> shape1 R = 3"
  using assms by (auto simp: axangle2mat_def Let_def split: list.splits if_splits)

text \<open>
  Whenever \<open>rotation\<close> returns on a three-channel input, the result is a well-formed
  matrix of the input's shape.
\<close>

theorem rotation_shape:
  assumes "rotation X u ua = Inr Y" and "shape1 X = 3"
  shows "wf_array Y \<and> shape0 Y = shape0 X \<and> shape1 Y = shape1 X"
proof -
  from assms(1) obtain R where R: "axangle2mat (map (\<lambda>j. random_uniform (- 1) 1 (u j)) [0..<shape1 X])
      (random_uniform (- pi) pi ua) = Inr R" and Y: "np_matmul X R = Inr Y"
    by (auto simp: rotation_def Let_def split: sum.splits)
  from axangle2mat_shape [OF R] Y assms(2) show ?thesis
    by (auto simp: np_matmul_def split: if_splits)
qed


lemma assign_rows_wf:
  assumes "wf_array A" and "\<forall>r \<in> set src. length r = shape1 A"
    and "assign_rows A pp src = Inr A'"
  shows "wf_array A' \<and> shape0 A' = shape0 A \<and> shape1 A' = shape1 A"
proof -
  let ?s = "min pp (shape0 A)" and ?e = "min (pp + length src) (shape0 A)"
  note wf = wf_arrayD [OF assms(1)]
  have rowlen: "\<forall>r \<in> set (rows A). length r = shape1 A"
    using assms(1) by (simp add: wf_array_def list_all_iff)
  have se: "?s \<le> ?e" "?e \<le> shape0 A" by simp_all
  consider (same) "length src = ?e - ?s" "A' = A\<lparr>rows := take ?s (rows A) @ src @ drop ?e (rows A)\<rparr>"
    | (rep) "length src = 1" "A' = A\<lparr>rows := take ?s (rows A) @ replicate (?e - ?s) (hd src) @ drop ?e (rows A)\<rparr>"
    using assms(3) by (auto simp: assign_rows_def Let_def split: if_splits)
  then show ?thesis
  proof cases
    case same
    have sh: "shape0 A' = shape0 A" "shape1 A' = shape1 A" using same(2) by simp_all
    have "length (rows A') = shape0 A" using same se wf(1) by simp
    moreover have "\<forall>r \<in> set (rows A'). length r = shape1 A"
      using same(2) rowlen assms(2) by (auto dest: in_set_takeD in_set_dropD)
    ultimately show ?thesis using sh by (simp add: wf_array_def list_all_iff)
  next
    case rep
    then have "hd src \<in> set src" by (cases src) simp_all
    then have h: "length (hd src) = shape1 A" using assms(2) by simp
    have sh: "shape0 A' = shape0 A" "shape1 A' = shape1 A" using rep(2) by simp_all
    have "length (rows A') = shape0 A" using rep(2) se wf(1) by simp
    moreover have "\<forall>r \<in> set (rows A'). length r = shape1 A"
      using rep(2) rowlen h by (auto dest: in_set_takeD in_set_dropD)
    ultimately show ?thesis using sh by (simp add: wf_array_def list_all_iff)
  qed
qed

lemma set_py_slice: "set (py_slice xs a b) \<subseteq> set xs"
  by (auto simp: py_slice_def Let_def dest: in_set_takeD in_set_dropD)

lemma place_segments_wf:
  assumes "wf_array X" and "wf_array A" and "shape1 A = shape1 X"
    and "place_segments X segs idx A pp = Inr Y"
  shows "wf_array Y \<and> shape0 Y = shape0 A \<and> shape1 Y = shape1 A"
  using assms(2,3,4)
proof (induction idx arbitrary: A pp)
  case Nil
  then show ?case by simp
next
  case (Cons i idx)
  let ?x = "py_slice (rows X) (segs ! i) (segs ! Suc i)"
  from Cons.prems(3) obtain A' where asg: "assign_rows A pp ?x = Inr A'"
    and rest: "place_segments X segs idx A' (pp + length ?x) = Inr Y"
    by (auto simp: Let_def split: if_splits sum.splits)
  have "\<forall>r \<in> set (rows X). length r = shape1 X"
    using assms(1) by (simp add: wf_array_def list_all_iff)
  then have "\<forall>r \<in> set ?x. length r = shape1 A"
    using set_py_slice [of "rows X" "segs ! i" "segs ! Suc i"] Cons.prems(2) by auto
  from assign_rows_wf [OF Cons.prems(1) this asg]
  have A': "wf_array A'" "shape0 A' = shape0 A" "shape1 A' = shape1 A" by simp_all
  from Cons.IH [OF A'(1) _ rest] A' Cons.prems(2) show ?case by simp
qed

text \<open>
  Whenever \<open>permutation\<close> returns on a well-formed input, the result is a well-formed
  matrix of the input's shape, whatever order \<open>idx\<close> holds.
\<close>

theorem permutation_shape:
  assumes "permutation X nPerm minSegLength idx cuts = Some (Inr Y)" and "wf_array X"
  shows "wf_array Y \<and> shape0 Y = shape0 X \<and> shape1 Y = shape1 X"
proof -
  from assms(1) obtain segs where
    "place_segments X segs idx (np_zeros (shape0 X) (shape1 X)) 0 = Inr Y"
    by (auto simp: permutation_def split: option.splits sum.splits)
  from place_segments_wf [OF assms(2) _ _ this] show ?thesis by simp
qed

lemma set_column_wf:
  assumes "wf_array A" and "set_column A c v = Inr A'"
  shows "wf_array A' \<and> shape0 A' = shape0 A \<and> shape1 A' = shape1 A"
proof -
  note wf = wf_arrayD [OF assms(1)]
  consider (same) "length v = shape0 A" "A' = A\<lparr>rows := map (\<lambda>(r, x). r[c := x]) (zip (rows A) v)\<rparr>"
    | (rep) "A' = A\<lparr>rows := map (\<lambda>r. r[c := hd v]) (rows A)\<rparr>"
    using assms(2) by (auto simp: set_column_def split: if_splits)
  then show ?thesis
  proof cases
    case same
    have "wf_array A'"
      by (rule wf_arrayI) (simp_all add: same wf)
    then show ?thesis using same(2) by simp
  next
    case rep
    have "wf_array A'"
      by (rule wf_arrayI) (simp_all add: rep wf)
    then show ?thesis using rep by simp
  qed
qed

lemma sample_interp_wf:
  assumes "wf_array A" and "sample_interp X tt A c = Inr A'"
  shows "wf_array A' \<and> shape0 A' = shape0 A \<and> shape1 A' = shape1 A"
proof -
  from assms(2) obtain v where "set_column A c v = Inr A'"
    by (auto simp: sample_interp_def split: sum.splits)
  with assms(1) show ?thesis by (rule set_column_wf)
qed

text \<open>
  Whenever \<open>rand_sampling\<close> returns, the result is a well-formed matrix of the input's
  shape, for any number of channels.
\<close>

theorem rand_sampling_shape:
  assumes "rand_sampling X nSample d = Inr Y"
  shows "wf_array Y \<and> shape0 Y = shape0 X \<and> shape1 Y = shape1 X"
proof -
  from assms obtain tt a b where
    a: "sample_interp X tt (np_zeros (shape0 X) (shape1 X)) 0 = Inr a"
    and b: "sample_interp X tt a 1 = Inr b" and Y: "sample_interp X tt b 2 = Inr Y"
    by (auto simp: rand_sampling_def split: sum.splits)
  from sample_interp_wf [OF _ a] have a': "wf_array a" "shape0 a = shape0 X" "shape1 a = shape1 X"
    by simp_all
  from sample_interp_wf [OF a'(1) b] a' have b': "wf_array b" "shape0 b = shape0 X" "shape1 b = shape1 X"
    by simp_all
  from sample_interp_wf [OF b'(1) Y] b' show ?thesis by simp
qed


theorem jitter_shape_witness:
  "jitter \<lparr>shape0 = 2, shape1 = 3, rows = [[1, 2, 3], [4, 5, 6]]\<rparr> (1 / 2) (\<lambda>i j. 2)
     = Inr \<lparr>shape0 = 2, shape1 = 3, rows = [[2, 3, 4], [5, 6, 7]]\<rparr> \<and>
   wf_array \<lparr>shape0 = 2, shape1 = 3, rows = [[2, 3, 4], [5, 6, 7 :: real]]\<rparr>"
proof -
  have ev: "jitter \<lparr>shape0 = 2, shape1 = 3, rows = [[1, 2, 3], [4, 5, 6]]\<rparr> (1 / 2) (\<lambda>i j. 2)
     = Inr \<lparr>shape0 = 2, shape1 = 3, rows = [[2, 3, 4], [5, 6, 7]]\<rparr>"
    by (simp add: jitter_def random_normal_def broadcast2_def at2_def mk_array_def upt_rec)
  from jitter_shape [OF ev] ev show ?thesis by simp
qed

theorem scaling_shape_witness:
  "scaling \<lparr>shape0 = 2, shape1 = 3, rows = [[1, 2, 3], [4, 5, 6]]\<rparr> (1 / 2) (\<lambda>i j. 2)
     = Inr \<lparr>shape0 = 2, shape1 = 3, rows = [[2, 4, 6], [8, 10, 12]]\<rparr> \<and>
   wf_array \<lparr>shape0 = 2, shape1 = 3, rows = [[2, 4, 6], [8, 10, 12 :: real]]\<rparr>"
proof -
  have ev: "scaling \<lparr>shape0 = 2, shape1 = 3, rows = [[1, 2, 3], [4, 5, 6]]\<rparr> (1 / 2) (\<lambda>i j. 2)
     = Inr \<lparr>shape0 = 2, shape1 = 3, rows = [[2, 4, 6], [8, 10, 12]]\<rparr>"
    by (simp add: scaling_def random_normal_def np_matmul_def np_ones_def broadcast2_def at2_def
        mk_array_def upt_rec)
  from scaling_shape [OF ev] ev show ?thesis by simp
qed

theorem magnitude_warp_shape_witness:
  "magnitude_warp interp1 (mk_array 6 3 (\<lambda>i j. real i)) (1 / 2) (\<lambda>i j. 2)
     = Inr (mk_array 6 3 (\<lambda>i j. real i * 2)) \<and>
   shape1 (mk_array 6 3 (\<lambda>i j. real i)) = 3 \<and>
   wf_array (mk_array 6 3 (\<lambda>i j. real i * 2))"
proof -
  have c: "generate_random_curves interp1 (mk_array 6 3 (\<lambda>i j. real i)) (1 / 2) 4 (\<lambda>i j. 2)
      = Inr (mk_array 6 3 (\<lambda>i j. 1 + 1 / 2 * 2))"
    by (rule six_row_curve [OF interpolating_interp1]) simp_all
  have "mk_array 6 3 (\<lambda>i j. at2 (mk_array 6 3 (\<lambda>i j. real i)) i j *
                              at2 (mk_array 6 3 (\<lambda>i j. 1 + 1 / 2 * 2)) i j)
        = mk_array 6 3 (\<lambda>i j. real i * 2)"
    by (rule mk_array_cong) (simp add: at2_mk_array)
  then have ev: "magnitude_warp interp1 (mk_array 6 3 (\<lambda>i j. real i)) (1 / 2) (\<lambda>i j. 2)
     = Inr (mk_array 6 3 (\<lambda>i j. real i * 2))"
    by (simp add: magnitude_warp_def c broadcast2_def)
  have n: "shape1 (mk_array 6 3 (\<lambda>i j. real i)) = 3" by simp
  from magnitude_warp_shape [OF ev n] ev n show ?thesis by simp
qed

theorem rotation_shape_witness:
  "rotation \<lparr>shape0 = 2, shape1 = 3, rows = [[1, 2, 3], [4, 5, 6]]\<rparr> (\<lambda>j. if j = 0 then 1 / 2 else 3 / 4) (1 / 2)
     = Inr \<lparr>shape0 = 2, shape1 = 3, rows = [[1, 2, 3], [4, 5, 6]]\<rparr> \<and>
   shape1 \<lparr>shape0 = 2, shape1 = 3, rows = [[1, 2, 3], [4, 5, 6 :: real]]\<rparr> = 3 \<and>
   wf_array \<lparr>shape0 = 2, shape1 = 3, rows = [[1, 2, 3], [4, 5, 6 :: real]]\<rparr>"
proof -
  have ev: "rotation \<lparr>shape0 = 2, shape1 = 3, rows = [[1, 2, 3], [4, 5, 6]]\<rparr>
      (\<lambda>j. if j = 0 then 1 / 2 else 3 / 4) (1 / 2)
     = Inr \<lparr>shape0 = 2, shape1 = 3, rows = [[1, 2, 3], [4, 5, 6]]\<rparr>"
    by (simp add: rotation_def random_uniform_def axangle2mat_def np_matmul_def mk_array_def
        upt_rec Let_def)
  have n: "shape1 \<lparr>shape0 = 2, shape1 = 3, rows = [[1, 2, 3], [4, 5, 6 :: real]]\<rparr> = 3" by simp
  from rotation_shape [OF ev n] ev n show ?thesis by simp
qed

theorem permutation_shape_witness:
  "permutation \<lparr>shape0 = 7, shape1 = 1, rows = [[1], [2], [3], [4], [5], [6], [7]]\<rparr> 2 2 [1, 0] (\<lambda>k i. 3)
     = Some (Inr \<lparr>shape0 = 7, shape1 = 1, rows = [[4], [5], [6], [7], [1], [2], [3]]\<rparr>) \<and>
   wf_array \<lparr>shape0 = 7, shape1 = 1, rows = [[1], [2], [3], [4], [5], [6], [7 :: real]]\<rparr> \<and>
   wf_array \<lparr>shape0 = 7, shape1 = 1, rows = [[4], [5], [6], [7], [1], [2], [3 :: real]]\<rparr>"
proof -
  let ?X = "\<lparr>shape0 = 7, shape1 = 1, rows = [[1], [2], [3], [4], [5], [6], [7 :: real]]\<rparr>"
  let ?Y = "\<lparr>shape0 = 7, shape1 = 1, rows = [[4], [5], [6], [7], [1], [2], [3 :: real]]\<rparr>"
  have dr: "draw_segs 7 2 2 (\<lambda>i. 3) = Inr [0, 3, 7]"
    by (simp add: draw_segs_def randint_def)
  have fs: "find_segs 7 2 2 (\<lambda>k i. 3) 0 = Some (Inr [0, 3, 7])"
    by (subst find_segs.simps) (simp add: dr seg_diffs_def)
  have ev: "permutation ?X 2 2 [1, 0] (\<lambda>k i. 3) = Some (Inr ?Y)"
    by (simp add: permutation_def fs assign_rows_def py_slice_def py_bound_def np_zeros_def
        mk_array_def upt_rec Let_def)
  have wf: "wf_array ?X" by (simp add: wf_array_def)
  from permutation_shape [OF ev wf] ev wf show ?thesis by simp
qed

theorem rand_sampling_shape_witness:
  "rand_sampling \<lparr>shape0 = 3, shape1 = 3, rows = [[1, 2, 3], [5, 6, 7], [9, 10, 11]]\<rparr> 3 (\<lambda>c i. 1)
     = Inr \<lparr>shape0 = 3, shape1 = 3, rows = [[1, 2, 3], [5, 6, 7], [9, 10, 11]]\<rparr> \<and>
   wf_array \<lparr>shape0 = 3, shape1 = 3, rows = [[1, 2, 3], [5, 6, 7], [9, 10, 11 :: real]]\<rparr>"
proof -
  have ev: "rand_sampling \<lparr>shape0 = 3, shape1 = 3, rows = [[1, 2, 3], [5, 6, 7], [9, 10, 11]]\<rparr> 3 (\<lambda>c i. 1)
     = Inr \<lparr>shape0 = 3, shape1 = 3, rows = [[1, 2, 3], [5, 6, 7], [9, 10, 11]]\<rparr>"
    by (simp add: rand_sampling_def rand_sample_timesteps_def sample_channel_def randint_def
      assign_inner_column_def assign_last_row_def sample_interp_def column_def take_rows_def
      np_interp_def interp1_def interp_index_def set_column_def x_range_def np_zeros_def
      mk_array_def enumerate_eq_zip upt_rec Let_def)
  from rand_sampling_shape [OF ev] ev show ?thesis by simp
qed

end
